theory Spec2Isabelle
  imports Main "HOL-Library.Word" "HOL-Library.Sublist"
begin

section \<open>Python values\<close>

text \<open>
  The server is one Python module, \<^verbatim>\<open>server.py\<close>: a webhook that decodes the posted bytes,
  parses them as JSON (repairing the text when the first parse fails), stores the parsed
  payload in \<^verbatim>\<open>result.json\<close>, and an endpoint that reads the file back.

  A Python \<^verbatim>\<open>str\<close> is a sequence of code points, so a text is a list of naturals; a
  \<^verbatim>\<open>bytes\<close> object is a list of 8-bit words. \<open>str\<close> and \<open>bytes\<close> turn an ASCII literal of
  the theory into the two.
\<close>

type_synonym pystr = "nat list"

type_synonym pybytes = "8 word list"

definition str :: "string \<Rightarrow> pystr" where
  "str s = map of_char s"

definition bytes :: "string \<Rightarrow> pybytes" where
  "bytes s = map (\<lambda>c. of_nat (of_char c)) s"

text \<open>
  A float is kept as the decimal number its literal denotes: \<open>Finite neg ds p\<close> is
  \<open>(-1)^neg * 0.d1 d2 ... dn * 10^p\<close>, with the digits and the position of the decimal point as
  CPython's \<^verbatim>\<open>repr\<close> obtains them from the shortest-digits conversion (zero is the digit
  \<open>0\<close> with \<open>p = 1\<close>). The rounding of a literal to binary64 is outside the model.
\<close>

datatype pyfloat = Finite bool "nat list" int | Infinite bool | NaN

text \<open>
  The objects \<^verbatim>\<open>json.loads\<close> returns. \<open>PyNone\<close> is Python's \<^verbatim>\<open>None\<close>: the value of the JSON
  literal \<^verbatim>\<open>null\<close> and also what the module's functions return for "nothing". A
  \<^verbatim>\<open>dict\<close> is the list of its items in insertion order.
\<close>

datatype py =
    PyNone
  | PyBool bool
  | PyInt int
  | PyFloat pyfloat
  | PyStr pystr
  | PyList "py list"
  | PyDict "(pystr \<times> py) list"

datatype json_msg =
    Expecting_value
  | Extra_data
  | Expecting_property_name
  | Expecting_colon_delimiter
  | Expecting_comma_delimiter
  | Unterminated_string
  | Invalid_control_character
  | Invalid_escape
  | Invalid_uXXXX_escape
  | Unexpected_BOM

datatype py_exception =
    JSONDecodeError json_msg
  | RecursionError
  | UnicodeDecodeError
  | UnicodeEncodeError
  | OSError

section \<open>The UTF-8 codec\<close>

text \<open>
  \<^verbatim>\<open>raw_body.decode("utf-8", "ignore")\<close>, \<^verbatim>\<open>read_text(encoding="utf-8")\<close> and
  \<^verbatim>\<open>write_text(payload, encoding="utf-8")\<close> go through CPython's UTF-8 codec. The encoder
  refuses surrogates and emits the shortest form.
\<close>

definition is_surrogate :: "nat \<Rightarrow> bool" where
  "is_surrogate c \<longleftrightarrow> 55296 \<le> c \<and> c \<le> 57343"

definition utf8_encode_char :: "nat \<Rightarrow> nat list option" where
  "utf8_encode_char c =
     (if c < 128 then Some [c]
      else if c < 2048 then Some [192 + c div 64, 128 + c mod 64]
      else if c < 65536 then
        (if is_surrogate c then None
         else Some [224 + c div 4096, 128 + (c div 64) mod 64, 128 + c mod 64])
      else if c < 1114112 then
        Some [240 + c div 262144, 128 + (c div 4096) mod 64, 128 + (c div 64) mod 64, 128 + c mod 64]
      else None)"

fun utf8_encode :: "pystr \<Rightarrow> py_exception + nat list" where
  "utf8_encode [] = Inr []"
| "utf8_encode (c # cs) =
     (case utf8_encode_char c of
        None \<Rightarrow> Inl UnicodeEncodeError
      | Some bs \<Rightarrow>
          (case utf8_encode cs of
             Inl e \<Rightarrow> Inl e
           | Inr r \<Rightarrow> Inr (bs @ r)))"

definition str_encode :: "pystr \<Rightarrow> py_exception + pybytes" where
  "str_encode s = (case utf8_encode s of Inl e \<Rightarrow> Inl e | Inr bs \<Rightarrow> Inr (map of_nat bs))"

text \<open>
  One step of the decoder at a lead byte \<open>ch\<close> followed by \<open>rest\<close>: either a code point and
  the number of continuation bytes it took, or an error and the number of bytes after
  \<open>ch\<close> that the error covers (the decoder resumes behind them). An unexpected end of the
  data covers everything that is left.
\<close>

datatype utf8_step = Decoded nat nat | Invalid nat

definition is_continuation :: "nat \<Rightarrow> bool" where
  "is_continuation b \<longleftrightarrow> 128 \<le> b \<and> b < 192"

definition utf8_step :: "nat \<Rightarrow> nat list \<Rightarrow> utf8_step" where
  "utf8_step ch rest =
     (if ch < 128 then Decoded ch 0
      else if ch < 194 then Invalid 0
      else if ch < 224 then
        (case rest of
           [] \<Rightarrow> Invalid 0
         | ch2 # _ \<Rightarrow>
             if \<not> is_continuation ch2 then Invalid 0
             else Decoded (ch * 64 + ch2 - 12416) 1)
      else if ch < 240 then
        (case rest of
           [] \<Rightarrow> Invalid 0
         | ch2 # r2 \<Rightarrow>
             if \<not> is_continuation ch2 \<or> (if ch2 < 160 then ch = 224 else ch = 237) then Invalid 0
             else
               (case r2 of
                  [] \<Rightarrow> Invalid 1
                | ch3 # _ \<Rightarrow>
                    if \<not> is_continuation ch3 then Invalid 1
                    else Decoded (ch * 4096 + ch2 * 64 + ch3 - 925824) 2))
      else if ch < 245 then
        (case rest of
           [] \<Rightarrow> Invalid 0
         | ch2 # r2 \<Rightarrow>
             if \<not> is_continuation ch2 \<or> (if ch2 < 144 then ch = 240 else ch = 244) then Invalid 0
             else
               (case r2 of
                  [] \<Rightarrow> Invalid 1
                | ch3 # r3 \<Rightarrow>
                    if \<not> is_continuation ch3 then Invalid 1
                    else
                      (case r3 of
                         [] \<Rightarrow> Invalid 2
                       | ch4 # _ \<Rightarrow>
                           if \<not> is_continuation ch4 then Invalid 2
                           else Decoded (ch * 262144 + ch2 * 4096 + ch3 * 64 + ch4 - 63447168) 3)))
      else Invalid 0)"

text \<open>The error handlers the module uses (\<open>Strict\<close> is the default) and \<^verbatim>\<open>"replace"\<close>.\<close>

datatype errors = Strict | Ignore | Replace

fun utf8_decode :: "errors \<Rightarrow> nat list \<Rightarrow> py_exception + pystr" where
  "utf8_decode errs [] = Inr []"
| "utf8_decode errs (ch # rest) =
     (case utf8_step ch rest of
        Decoded c k \<Rightarrow>
          (case utf8_decode errs (drop k rest) of
             Inl e \<Rightarrow> Inl e
           | Inr t \<Rightarrow> Inr (c # t))
      | Invalid k \<Rightarrow>
          (case errs of
             Strict \<Rightarrow> Inl UnicodeDecodeError
           | Ignore \<Rightarrow> utf8_decode errs (drop k rest)
           | Replace \<Rightarrow>
               (case utf8_decode errs (drop k rest) of
                  Inl e \<Rightarrow> Inl e
                | Inr t \<Rightarrow> Inr (65533 # t))))"

definition bytes_decode :: "errors \<Rightarrow> pybytes \<Rightarrow> py_exception + pystr" where
  "bytes_decode errs bs = utf8_decode errs (map unat bs)"

section \<open>\<^verbatim>\<open>json.loads\<close>\<close>

text \<open>
  The decoder of the standard library, as its scanner reads a text: JSON whitespace is
  space, tab, line feed and carriage return; a number is the longest match of
  \<^verbatim>\<open>(-?(?:0|[1-9][0-9]*))(\.[0-9]+)?([eE][-+]?[0-9]+)?\<close>, an \<^verbatim>\<open>int\<close> when it has neither
  fraction nor exponent; the three names \<^verbatim>\<open>NaN\<close>, \<^verbatim>\<open>Infinity\<close> and \<^verbatim>\<open>-Infinity\<close>
  are accepted although they are not JSON.
\<close>

definition is_ws :: "nat \<Rightarrow> bool" where
  "is_ws c \<longleftrightarrow> c = 32 \<or> c = 9 \<or> c = 10 \<or> c = 13"

definition skip_ws :: "pystr \<Rightarrow> pystr" where
  "skip_ws s = dropWhile is_ws s"

definition is_digit :: "nat \<Rightarrow> bool" where
  "is_digit c \<longleftrightarrow> 48 \<le> c \<and> c \<le> 57"

definition digit_val :: "nat \<Rightarrow> nat" where
  "digit_val c = c - 48"

definition nat_of_digits :: "nat list \<Rightarrow> nat" where
  "nat_of_digits ds = foldl (\<lambda>a d. 10 * a + d) 0 ds"

text \<open>
  \<^verbatim>\<open>float(integer + frac + exp)\<close> on the digits of the integer part, the digits of the
  fraction and the exponent: leading and trailing zeros carry no value.
\<close>

definition float_of_literal :: "bool \<Rightarrow> nat list \<Rightarrow> nat list \<Rightarrow> int \<Rightarrow> pyfloat" where
  "float_of_literal neg ip fp ex =
     (let ds = ip @ fp;
          lz = length (takeWhile (\<lambda>d. d = 0) ds);
          core = dropWhile (\<lambda>d. d = 0) ds;
          sig = rev (dropWhile (\<lambda>d. d = 0) (rev core))
      in if sig = [] then Finite neg [0] 1
         else Finite neg sig (int (length ip) + ex - int lz))"

definition match_integer :: "pystr \<Rightarrow> (nat list \<times> pystr) option" where
  "match_integer s =
     (case s of
        [] \<Rightarrow> None
      | c # r \<Rightarrow>
          if c = 48 then Some ([0], r)
          else if is_digit c then Some (map digit_val (takeWhile is_digit s), dropWhile is_digit s)
          else None)"

definition match_frac :: "pystr \<Rightarrow> (nat list \<times> pystr) option" where
  "match_frac s =
     (case s of
        c # d # r \<Rightarrow>
          if c = 46 \<and> is_digit d
          then Some (map digit_val (takeWhile is_digit (d # r)), dropWhile is_digit (d # r))
          else None
      | _ \<Rightarrow> None)"

definition match_digits :: "pystr \<Rightarrow> (nat \<times> pystr) option" where
  "match_digits s =
     (case s of
        [] \<Rightarrow> None
      | d # r \<Rightarrow>
          if is_digit d
          then Some (nat_of_digits (map digit_val (takeWhile is_digit s)), dropWhile is_digit s)
          else None)"

definition match_exp :: "pystr \<Rightarrow> (int \<times> pystr) option" where
  "match_exp s =
     (case s of
        [] \<Rightarrow> None
      | e # r \<Rightarrow>
          if e = 101 \<or> e = 69 then
            (case r of
               [] \<Rightarrow> None
             | g # r' \<Rightarrow>
                 if g = 45 then map_option (\<lambda>(n, t). (- int n, t)) (match_digits r')
                 else if g = 43 then map_option (\<lambda>(n, t). (int n, t)) (match_digits r')
                 else map_option (\<lambda>(n, t). (int n, t)) (match_digits r))
          else None)"

definition match_number :: "pystr \<Rightarrow> (py \<times> pystr) option" where
  "match_number s =
     (let neg = (case s of [] \<Rightarrow> False | c # _ \<Rightarrow> c = 45);
          s1 = (if neg then tl s else s)
      in case match_integer s1 of
           None \<Rightarrow> None
         | Some (ip, s2) \<Rightarrow>
             (let fr = match_frac s2;
                  s3 = (case fr of None \<Rightarrow> s2 | Some (_, t) \<Rightarrow> t);
                  ex = match_exp s3;
                  s4 = (case ex of None \<Rightarrow> s3 | Some (_, t) \<Rightarrow> t)
              in if fr = None \<and> ex = None
                 then Some (PyInt (if neg then - int (nat_of_digits ip) else int (nat_of_digits ip)), s4)
                 else Some (PyFloat (float_of_literal neg ip
                                (case fr of None \<Rightarrow> [] | Some (fp, _) \<Rightarrow> fp)
                                (case ex of None \<Rightarrow> 0 | Some (e, _) \<Rightarrow> e)), s4)))"

text \<open>
  \<^verbatim>\<open>scanstring\<close> with \<^verbatim>\<open>strict=True\<close>, called behind the opening quote: it returns the
  content and the text behind the closing quote. A raw control character is refused; a
  \<^verbatim>\<open>\uXXXX\<close> escape takes four hexadecimal digits, and a high surrogate followed by an
  escaped low surrogate is joined into one code point (a lone surrogate is kept).
\<close>

definition hex_val :: "nat \<Rightarrow> nat option" where
  "hex_val c =
     (if 48 \<le> c \<and> c \<le> 57 then Some (c - 48)
      else if 97 \<le> c \<and> c \<le> 102 then Some (c - 87)
      else if 65 \<le> c \<and> c \<le> 70 then Some (c - 55)
      else None)"

definition decode_uXXXX :: "pystr \<Rightarrow> nat option" where
  "decode_uXXXX s =
     (case map hex_val (take 4 s) of
        [Some a, Some b, Some c, Some d] \<Rightarrow> Some (((a * 16 + b) * 16 + c) * 16 + d)
      | _ \<Rightarrow> None)"

definition backslash :: "nat \<Rightarrow> nat option" where
  "backslash e =
     (if e = 34 then Some 34
      else if e = 92 then Some 92
      else if e = 47 then Some 47
      else if e = 98 then Some 8
      else if e = 102 then Some 12
      else if e = 110 then Some 10
      else if e = 114 then Some 13
      else if e = 116 then Some 9
      else None)"

text \<open>
  The escape \<open>e\<close> behind a backslash, followed by \<open>r\<close>: the character it stands for and the
  number of characters of \<open>r\<close> that belong to it.
\<close>

definition scan_escape :: "nat \<Rightarrow> pystr \<Rightarrow> py_exception + (nat \<times> nat)" where
  "scan_escape e r =
     (if e \<noteq> 117 then
        (case backslash e of
           None \<Rightarrow> Inl (JSONDecodeError Invalid_escape)
         | Some c \<Rightarrow> Inr (c, 0))
      else
        (case decode_uXXXX r of
           None \<Rightarrow> Inl (JSONDecodeError Invalid_uXXXX_escape)
         | Some uni \<Rightarrow>
             if 55296 \<le> uni \<and> uni \<le> 56319 \<and> take 2 (drop 4 r) = [92, 117] then
               (case decode_uXXXX (drop 6 r) of
                  None \<Rightarrow> Inl (JSONDecodeError Invalid_uXXXX_escape)
                | Some uni2 \<Rightarrow>
                    if 56320 \<le> uni2 \<and> uni2 \<le> 57343
                    then Inr (65536 + (uni - 55296) * 1024 + (uni2 - 56320), 10)
                    else Inr (uni, 4))
             else Inr (uni, 4)))"

fun scanstring :: "pystr \<Rightarrow> py_exception + (pystr \<times> pystr)" where
  "scanstring [] = Inl (JSONDecodeError Unterminated_string)"
| "scanstring (c # cs) =
     (if c = 34 then Inr ([], cs)
      else if c = 92 then
        (case cs of
           [] \<Rightarrow> Inl (JSONDecodeError Unterminated_string)
         | e # r \<Rightarrow>
             (case scan_escape e r of
                Inl err \<Rightarrow> Inl err
              | Inr (u, k) \<Rightarrow>
                  (case scanstring (drop k r) of
                     Inl err \<Rightarrow> Inl err
                   | Inr (t, rest) \<Rightarrow> Inr (u # t, rest))))
      else if c < 32 then Inl (JSONDecodeError Invalid_control_character)
      else
        (case scanstring cs of
           Inl err \<Rightarrow> Inl err
         | Inr (t, rest) \<Rightarrow> Inr (c # t, rest)))"

text \<open>
  \<^verbatim>\<open>dict(pairs)\<close>: a key that comes again keeps its place and takes the later value.
\<close>

fun dict_setitem :: "(pystr \<times> py) list \<Rightarrow> pystr \<Rightarrow> py \<Rightarrow> (pystr \<times> py) list" where
  "dict_setitem [] k v = [(k, v)]"
| "dict_setitem ((k', v') # d) k v =
     (if k' = k then (k', v) # d else (k', v') # dict_setitem d k v)"

definition dict_of_pairs :: "(pystr \<times> py) list \<Rightarrow> (pystr \<times> py) list" where
  "dict_of_pairs pairs = foldl (\<lambda>d (k, v). dict_setitem d k v) [] pairs"

text \<open>
  The scanner. \<open>scan_once\<close> dispatches on the next character and treats the empty object
  and the empty array itself; \<open>JSONObject\<close> is the loop over the members of an object,
  entered at the quote of a key, and \<open>JSONArray\<close> the loop over the elements of an array.
  The first argument bounds the depth of the calls; each loop iteration and each nested
  value takes one. \<open>json_loads\<close> passes twice the length of the text and one more, which
  no text exhausts (\<open>json_loads_no_recursion_error\<close> below). CPython's own limits, on the
  depth of the nesting and on the number of digits of an \<^verbatim>\<open>int\<close>, are not modelled.
\<close>

fun scan_once :: "nat \<Rightarrow> pystr \<Rightarrow> py_exception + (py \<times> pystr)"
and JSONObject :: "nat \<Rightarrow> pystr \<Rightarrow> py_exception + ((pystr \<times> py) list \<times> pystr)"
and JSONArray :: "nat \<Rightarrow> pystr \<Rightarrow> py_exception + (py list \<times> pystr)"
where
  "scan_once 0 s = Inl RecursionError"
| "scan_once (Suc n) s =
     (case s of
        [] \<Rightarrow> Inl (JSONDecodeError Expecting_value)
      | c # r \<Rightarrow>
          if c = 34 then
            (case scanstring r of
               Inl err \<Rightarrow> Inl err
             | Inr (t, rest) \<Rightarrow> Inr (PyStr t, rest))
          else if c = 123 then
            (case skip_ws r of
               [] \<Rightarrow> Inl (JSONDecodeError Expecting_property_name)
             | d # r' \<Rightarrow>
                 if d = 125 then Inr (PyDict [], r')
                 else
                   (case JSONObject n (d # r') of
                      Inl err \<Rightarrow> Inl err
                    | Inr (pairs, rest) \<Rightarrow> Inr (PyDict (dict_of_pairs pairs), rest)))
          else if c = 91 then
            (case skip_ws r of
               [] \<Rightarrow> Inl (JSONDecodeError Expecting_value)
             | d # r' \<Rightarrow>
                 if d = 93 then Inr (PyList [], r')
                 else
                   (case JSONArray n (d # r') of
                      Inl err \<Rightarrow> Inl err
                    | Inr (vs, rest) \<Rightarrow> Inr (PyList vs, rest)))
          else if c = 110 \<and> take 4 s = str ''null'' then Inr (PyNone, drop 4 s)
          else if c = 116 \<and> take 4 s = str ''true'' then Inr (PyBool True, drop 4 s)
          else if c = 102 \<and> take 5 s = str ''false'' then Inr (PyBool False, drop 5 s)
          else
            (case match_number s of
               Some res \<Rightarrow> Inr res
             | None \<Rightarrow>
                 if c = 78 \<and> take 3 s = str ''NaN'' then Inr (PyFloat NaN, drop 3 s)
                 else if c = 73 \<and> take 8 s = str ''Infinity''
                 then Inr (PyFloat (Infinite False), drop 8 s)
                 else if c = 45 \<and> take 9 s = str ''-Infinity''
                 then Inr (PyFloat (Infinite True), drop 9 s)
                 else Inl (JSONDecodeError Expecting_value)))"
| "JSONObject 0 s = Inl RecursionError"
| "JSONObject (Suc n) s =
     (case s of
        [] \<Rightarrow> Inl (JSONDecodeError Expecting_property_name)
      | q # r0 \<Rightarrow>
          if q \<noteq> 34 then Inl (JSONDecodeError Expecting_property_name)
          else
            (case scanstring r0 of
               Inl err \<Rightarrow> Inl err
             | Inr (key, r1) \<Rightarrow>
                 (case skip_ws r1 of
                    [] \<Rightarrow> Inl (JSONDecodeError Expecting_colon_delimiter)
                  | c # r2 \<Rightarrow>
                      if c \<noteq> 58 then Inl (JSONDecodeError Expecting_colon_delimiter)
                      else
                        (case scan_once n (skip_ws r2) of
                           Inl err \<Rightarrow> Inl err
                         | Inr (v, r3) \<Rightarrow>
                             (case skip_ws r3 of
                                [] \<Rightarrow> Inl (JSONDecodeError Expecting_comma_delimiter)
                              | nextchar # r4 \<Rightarrow>
                                  if nextchar = 125 then Inr ([(key, v)], r4)
                                  else if nextchar \<noteq> 44
                                  then Inl (JSONDecodeError Expecting_comma_delimiter)
                                  else
                                    (case JSONObject n (skip_ws r4) of
                                       Inl err \<Rightarrow> Inl err
                                     | Inr (pairs, rest) \<Rightarrow> Inr ((key, v) # pairs, rest)))))))"
| "JSONArray 0 s = Inl RecursionError"
| "JSONArray (Suc n) s =
     (case scan_once n s of
        Inl err \<Rightarrow> Inl err
      | Inr (v, r1) \<Rightarrow>
          (case skip_ws r1 of
             [] \<Rightarrow> Inl (JSONDecodeError Expecting_comma_delimiter)
           | nextchar # r2 \<Rightarrow>
               if nextchar = 93 then Inr ([v], r2)
               else if nextchar \<noteq> 44 then Inl (JSONDecodeError Expecting_comma_delimiter)
               else
                 (case JSONArray n (skip_ws r2) of
                    Inl err \<Rightarrow> Inl err
                  | Inr (vs, rest) \<Rightarrow> Inr (v # vs, rest))))"

text \<open>
  \<^verbatim>\<open>json.loads(s)\<close> for a \<^verbatim>\<open>str\<close>: a leading byte order mark is refused, whitespace may
  surround the one value, and anything else behind it is \<^verbatim>\<open>Extra data\<close>.
\<close>

definition json_loads :: "pystr \<Rightarrow> py_exception + py" where
  "json_loads s =
     (if take 1 s = [65279] then Inl (JSONDecodeError Unexpected_BOM)
      else
        (case scan_once (Suc (length s + length s)) (skip_ws s) of
           Inl err \<Rightarrow> Inl err
         | Inr (obj, rest) \<Rightarrow>
             if skip_ws rest = [] then Inr obj else Inl (JSONDecodeError Extra_data)))"

section \<open>\<^verbatim>\<open>json.dumps\<close>\<close>

text \<open>
  \<^verbatim>\<open>json.dumps(data, ensure_ascii=False, indent=2)\<close>. An \<^verbatim>\<open>int\<close> is written in decimal;
  a finite float as \<^verbatim>\<open>float.__repr__\<close> writes it: plain notation while the decimal point
  lies within the range \<open>-4 < p \<le> 16\<close>, with \<^verbatim>\<open>.0\<close> added to an integral value, and
  otherwise one digit before the point and an exponent of at least two digits.
\<close>

fun digits_of_nat :: "nat \<Rightarrow> nat list" where
  "digits_of_nat n = (if n < 10 then [n] else digits_of_nat (n div 10) @ [n mod 10])"

declare digits_of_nat.simps [simp del]

definition digit_char :: "nat \<Rightarrow> nat" where
  "digit_char d = 48 + d"

definition int_repr :: "int \<Rightarrow> pystr" where
  "int_repr i =
     (if i < 0 then 45 # map digit_char (digits_of_nat (nat (- i)))
      else map digit_char (digits_of_nat (nat i)))"

definition float_repr :: "bool \<Rightarrow> nat list \<Rightarrow> int \<Rightarrow> pystr" where
  "float_repr neg ds p =
     (let sign = (if neg then [45] else []);
          digs = map digit_char ds
      in if p \<le> - 4 \<or> 16 < p then
           (let e = p - 1;
                mant = (case digs of [] \<Rightarrow> [] | d # r \<Rightarrow> if r = [] then [d] else d # 46 # r);
                ed = map digit_char (digits_of_nat (nat \<bar>e\<bar>))
            in sign @ mant @ [101] @ (if e < 0 then [45] else [43]) @
               (if length ed < 2 then 48 # ed else ed))
         else if p \<le> 0 then sign @ [48, 46] @ replicate (nat (- p)) 48 @ digs
         else if int (length ds) \<le> p then
           sign @ digs @ replicate (nat p - length ds) 48 @ [46, 48]
         else sign @ take (nat p) digs @ [46] @ drop (nat p) digs)"

definition floatstr :: "pyfloat \<Rightarrow> pystr" where
  "floatstr f =
     (case f of
        NaN \<Rightarrow> str ''NaN''
      | Infinite neg \<Rightarrow> (if neg then str ''-Infinity'' else str ''Infinity'')
      | Finite neg ds p \<Rightarrow> float_repr neg ds p)"

text \<open>
  With \<^verbatim>\<open>ensure_ascii=False\<close> a string is written between quotes with only the quote,
  the backslash and the control characters below U+0020 escaped; every other code point
  is written as it is.
\<close>

definition hex_digit :: "nat \<Rightarrow> nat" where
  "hex_digit d = (if d < 10 then 48 + d else 87 + d)"

definition escape_char :: "nat \<Rightarrow> pystr" where
  "escape_char c =
     (if c = 34 then [92, 34]
      else if c = 92 then [92, 92]
      else if c = 8 then [92, 98]
      else if c = 12 then [92, 102]
      else if c = 10 then [92, 110]
      else if c = 13 then [92, 114]
      else if c = 9 then [92, 116]
      else if c < 32 then [92, 117, 48, 48, hex_digit (c div 16), hex_digit (c mod 16)]
      else [c])"

definition encode_basestring :: "pystr \<Rightarrow> pystr" where
  "encode_basestring s = 34 # concat (map escape_char s) @ [34]"

text \<open>
  The encoder with an indent: an empty container is \<^verbatim>\<open>[]\<close> or \<^verbatim>\<open>{}\<close>; otherwise each
  item stands on a line of its own, indented by two spaces per level, the items separated
  by a comma, a key and its value by a colon and a space.
\<close>

definition newline_indent :: "nat \<Rightarrow> pystr" where
  "newline_indent level = 10 # replicate (2 * level) 32"

fun iterencode :: "nat \<Rightarrow> py \<Rightarrow> pystr"
and iterencode_list :: "nat \<Rightarrow> py list \<Rightarrow> pystr"
and iterencode_dict :: "nat \<Rightarrow> (pystr \<times> py) list \<Rightarrow> pystr"
where
  "iterencode level PyNone = str ''null''"
| "iterencode level (PyBool b) = (if b then str ''true'' else str ''false'')"
| "iterencode level (PyInt i) = int_repr i"
| "iterencode level (PyFloat f) = floatstr f"
| "iterencode level (PyStr s) = encode_basestring s"
| "iterencode level (PyList lst) =
     (if lst = [] then str ''[]''
      else [91] @ newline_indent (Suc level) @ iterencode_list (Suc level) lst @
           newline_indent level @ [93])"
| "iterencode level (PyDict dct) =
     (if dct = [] then str ''{}''
      else [123] @ newline_indent (Suc level) @ iterencode_dict (Suc level) dct @
           newline_indent level @ [125])"
| "iterencode_list level [] = []"
| "iterencode_list level (v # vs) =
     (if vs = [] then iterencode level v
      else iterencode level v @ [44] @ newline_indent level @ iterencode_list level vs)"
| "iterencode_dict level [] = []"
| "iterencode_dict level ((k, v) # kvs) =
     (if kvs = [] then encode_basestring k @ [58, 32] @ iterencode level v
      else encode_basestring k @ [58, 32] @ iterencode level v @ [44] @ newline_indent level @
           iterencode_dict level kvs)"

definition json_dumps :: "py \<Rightarrow> pystr" where
  "json_dumps data = iterencode 0 data"

section \<open>The repair passes\<close>

text \<open>
  \<^verbatim>\<open>_try_parse_mt5_json\<close> repairs a text with five calls of \<^verbatim>\<open>re.sub\<close>. A pattern is
  modelled by its matcher: given the character before a position (\<open>None\<close> at the start of
  the text) and the text from the position on, it returns the replacement and the length
  of the match less one, or \<open>None\<close> where the pattern does not match. None of the five
  patterns matches the empty text. \<open>re_sub\<close> scans as \<^verbatim>\<open>re.sub\<close> does: from left to right,
  replacing a match and going on behind it, copying a character where nothing matches.

  The classes are those of a \<^verbatim>\<open>str\<close> pattern. \<^verbatim>\<open>\s\<close> is the whitespace of
  \<^verbatim>\<open>str.isspace\<close>. For \<^verbatim>\<open>\d\<close> and \<^verbatim>\<open>\w\<close> the ASCII characters are modelled; beyond
  ASCII Python consults the Unicode database (decimal digits and alphanumerics of other
  scripts), which the model treats as neither digit nor word character.
\<close>

definition re_space :: "nat \<Rightarrow> bool" where
  "re_space c \<longleftrightarrow>
     (9 \<le> c \<and> c \<le> 13) \<or> (28 \<le> c \<and> c \<le> 32) \<or> c = 133 \<or> c = 160 \<or> c = 5760 \<or>
     (8192 \<le> c \<and> c \<le> 8202) \<or> c = 8232 \<or> c = 8233 \<or> c = 8239 \<or> c = 8287 \<or> c = 12288"

definition re_digit :: "nat \<Rightarrow> bool" where
  "re_digit c \<longleftrightarrow> 48 \<le> c \<and> c \<le> 57"

definition re_word :: "nat \<Rightarrow> bool" where
  "re_word c \<longleftrightarrow>
     (48 \<le> c \<and> c \<le> 57) \<or> (65 \<le> c \<and> c \<le> 90) \<or> c = 95 \<or> (97 \<le> c \<and> c \<le> 122)"

text \<open>\<^verbatim>\<open>\b\<close> between two neighbours: exactly one of them is a word character.\<close>

definition word_boundary :: "nat option \<Rightarrow> nat option \<Rightarrow> bool" where
  "word_boundary a b \<longleftrightarrow>
     (case a of None \<Rightarrow> False | Some x \<Rightarrow> re_word x) \<noteq>
     (case b of None \<Rightarrow> False | Some y \<Rightarrow> re_word y)"

definition next_char :: "pystr \<Rightarrow> nat option" where
  "next_char s = (case s of [] \<Rightarrow> None | c # _ \<Rightarrow> Some c)"

fun re_sub :: "(nat option \<Rightarrow> pystr \<Rightarrow> (pystr \<times> nat) option) \<Rightarrow> nat option \<Rightarrow> pystr \<Rightarrow> pystr" where
  "re_sub m prev [] = []"
| "re_sub m prev (c # cs) =
     (case m prev (c # cs) of
        None \<Rightarrow> c # re_sub m (Some c) cs
      | Some (repl, k) \<Rightarrow> repl @ re_sub m (Some ((c # cs) ! k)) (drop k cs))"

text \<open>A text starts with one character of each class of the list, in order.\<close>

definition shape :: "(nat \<Rightarrow> bool) list \<Rightarrow> pystr \<Rightarrow> bool" where
  "shape ps s \<longleftrightarrow> length ps \<le> length s \<and> list_all2 (\<lambda>p c. p c) ps (take (length ps) s)"

definition date_shape :: "(nat \<Rightarrow> bool) list" where
  "date_shape = [re_digit, re_digit, re_digit, re_digit, (\<lambda>c. c = 46), re_digit, re_digit,
                 (\<lambda>c. c = 46), re_digit, re_digit]"

definition time_shape :: "(nat \<Rightarrow> bool) list" where
  "time_shape = [re_digit, re_digit, (\<lambda>c. c = 58), re_digit, re_digit, (\<lambda>c. c = 58),
                 re_digit, re_digit]"

text \<open>
  \<^verbatim>\<open>(:\s*)(\d{4}\.\d{2}\.\d{2}(?:\s+\d{2}:\d{2}:\d{2})?)\b\<close> replaced by \<^verbatim>\<open>\1"\2"\<close>. The
  whitespace runs are greedy and what follows them is never whitespace, so giving some
  back cannot help; the optional time is tried first and, where it or the word boundary
  behind it fails, the date alone.
\<close>

definition match_datetime :: "nat option \<Rightarrow> pystr \<Rightarrow> (pystr \<times> nat) option" where
  "match_datetime prev s =
     (case s of
        [] \<Rightarrow> None
      | c # r \<Rightarrow>
          if c \<noteq> 58 then None
          else
            (let g1 = c # takeWhile re_space r;
                 r1 = dropWhile re_space r
             in if \<not> shape date_shape r1 then None
                else
                  (let date = take 10 r1;
                       r2 = drop 10 r1;
                       sp = takeWhile re_space r2;
                       r3 = dropWhile re_space r2;
                       tm = take 8 r3;
                       r4 = drop 8 r3
                   in if sp \<noteq> [] \<and> shape time_shape r3 \<and>
                         word_boundary (Some (last tm)) (next_char r4)
                      then Some (g1 @ [34] @ date @ sp @ tm @ [34],
                                 length g1 + 10 + length sp + 8 - 1)
                      else if word_boundary (Some (last date)) (next_char r2)
                      then Some (g1 @ [34] @ date @ [34], length g1 + 10 - 1)
                      else None)))"

text \<open>\<^verbatim>\<open>,\s*([}\]])\<close> replaced by \<^verbatim>\<open>\1\<close>.\<close>

definition match_trailing_comma :: "nat option \<Rightarrow> pystr \<Rightarrow> (pystr \<times> nat) option" where
  "match_trailing_comma prev s =
     (case s of
        [] \<Rightarrow> None
      | c # r \<Rightarrow>
          if c \<noteq> 44 then None
          else
            (case dropWhile re_space r of
               [] \<Rightarrow> None
             | b # _ \<Rightarrow>
                 if b = 125 \<or> b = 93 then Some ([b], Suc (length (takeWhile re_space r)))
                 else None))"

text \<open>\<^verbatim>\<open>\bTOKEN\b\<close> replaced by a fixed text, for a token that ends in a word character.\<close>

definition match_token :: "pystr \<Rightarrow> pystr \<Rightarrow> nat option \<Rightarrow> pystr \<Rightarrow> (pystr \<times> nat) option" where
  "match_token tok repl prev s =
     (if word_boundary prev (next_char tok) \<and> take (length tok) s = tok \<and>
         word_boundary (Some (last tok)) (next_char (drop (length tok) s))
      then Some (repl, length tok - 1)
      else None)"

definition repair :: "pystr \<Rightarrow> pystr" where
  "repair raw_text =
     (let repaired = raw_text;
          repaired = re_sub match_datetime None repaired;
          repaired = re_sub match_trailing_comma None repaired;
          repaired = re_sub (match_token (str ''NaN'') (str ''null'')) None repaired;
          repaired = re_sub (match_token (str ''Infinity'') (str ''null'')) None repaired;
          repaired = re_sub (match_token (str ''-Infinity'') (str ''null'')) None repaired
      in repaired)"

text \<open>
  \<^verbatim>\<open>str(exc)\<close>. Of the message of a \<^verbatim>\<open>JSONDecodeError\<close> the model keeps the head; CPython
  appends the line, the column and the index of the error. The texts of the other
  exceptions stand for messages that name the operands.
\<close>

definition msg_text :: "json_msg \<Rightarrow> pystr" where
  "msg_text m =
     (case m of
        Expecting_value \<Rightarrow> str ''Expecting value''
      | Extra_data \<Rightarrow> str ''Extra data''
      | Expecting_property_name \<Rightarrow> str ''Expecting property name enclosed in double quotes''
      | Expecting_colon_delimiter \<Rightarrow> str ''Expecting ':' delimiter''
      | Expecting_comma_delimiter \<Rightarrow> str ''Expecting ',' delimiter''
      | Unterminated_string \<Rightarrow> str ''Unterminated string starting at''
      | Invalid_control_character \<Rightarrow> str ''Invalid control character at''
      | Invalid_escape \<Rightarrow> str ''Invalid '' @ [92] @ str ''escape''
      | Invalid_uXXXX_escape \<Rightarrow> str ''Invalid '' @ [92] @ str ''uXXXX escape''
      | Unexpected_BOM \<Rightarrow> str ''Unexpected UTF-8 BOM (decode using utf-8-sig)'')"

definition exc_str :: "py_exception \<Rightarrow> pystr" where
  "exc_str e =
     (case e of
        JSONDecodeError m \<Rightarrow> msg_text m
      | RecursionError \<Rightarrow> str ''maximum recursion depth exceeded''
      | UnicodeDecodeError \<Rightarrow> str ''utf-8 codec cannot decode''
      | UnicodeEncodeError \<Rightarrow> str ''utf-8 codec cannot encode''
      | OSError \<Rightarrow> str ''OSError'')"

section \<open>\<^verbatim>\<open>_try_parse_mt5_json\<close>\<close>

text \<open>
  The function returns the triple \<^verbatim>\<open>(payload, repaired_text, error_message)\<close>; an absent
  text is \<open>None\<close>, and the payload of a failure is Python's \<^verbatim>\<open>None\<close>.
\<close>

definition try_parse_mt5_json :: "pystr \<Rightarrow> py \<times> pystr option \<times> pystr option" where
  "try_parse_mt5_json raw_text =
     (case json_loads raw_text of
        Inr payload \<Rightarrow> (payload, None, None)
      | Inl first_error \<Rightarrow>
          (let repaired = repair raw_text
           in case json_loads repaired of
                Inr payload \<Rightarrow> (payload, Some repaired, None)
              | Inl second_error \<Rightarrow>
                  (PyNone, Some repaired,
                   Some (exc_str first_error @ str '' | after_repair: '' @ exc_str second_error))))"

section \<open>Paths and files\<close>

text \<open>
  A path is a directory and a final component. \<^verbatim>\<open>with_name\<close> replaces the component;
  \<^verbatim>\<open>with_suffix\<close> replaces its suffix, which pathlib takes from the last dot of the name
  when that dot is neither its first nor its last character.
\<close>

record path =
  parent :: pystr
  name :: pystr

definition with_name :: "path \<Rightarrow> pystr \<Rightarrow> path" where
  "with_name p n = p\<lparr>name := n\<rparr>"

definition path_suffix :: "path \<Rightarrow> pystr" where
  "path_suffix p =
     (let nm = name p;
          k = length (takeWhile (\<lambda>c. c \<noteq> 46) (rev nm))
      in if k < length nm \<and> 0 < length nm - k - 1 \<and> 0 < k
         then drop (length nm - k - 1) nm
         else [])"

definition with_suffix :: "path \<Rightarrow> pystr \<Rightarrow> path" where
  "with_suffix p sfx =
     (let old_suffix = path_suffix p
      in if old_suffix = [] then p\<lparr>name := name p @ sfx\<rparr>
         else p\<lparr>name := take (length (name p) - length old_suffix) (name p) @ sfx\<rparr>)"

text \<open>
  The world the handlers run in: the files with their bytes, the paths on which the
  operating system refuses an operation (\<open>OSError\<close>), and the record of the operations that
  were attempted on the file system, in order.
\<close>

datatype fs_op = Write_text path | Replace_file path path

record world =
  files :: "path \<Rightarrow> pybytes option"
  io_error :: "path \<Rightarrow> bool"
  oplog :: "fs_op list"

definition path_exists :: "path \<Rightarrow> world \<Rightarrow> bool" where
  "path_exists p w \<longleftrightarrow> files w p \<noteq> None"

text \<open>
  \<^verbatim>\<open>write_text(data, encoding="utf-8")\<close> opens the file for writing, which creates or
  empties it, and then writes the encoded text (no newline is translated on a POSIX
  system); a text the codec refuses leaves the file empty.
\<close>

definition write_text :: "path \<Rightarrow> pystr \<Rightarrow> world \<Rightarrow> (py_exception + unit) \<times> world" where
  "write_text p data w =
     (let w1 = w\<lparr>oplog := oplog w @ [Write_text p]\<rparr>
      in if io_error w p then (Inl OSError, w1)
         else
           (case str_encode data of
              Inl e \<Rightarrow> (Inl e, w1\<lparr>files := (files w1)(p := Some [])\<rparr>)
            | Inr bs \<Rightarrow> (Inr (), w1\<lparr>files := (files w1)(p := Some bs)\<rparr>)))"

text \<open>\<^verbatim>\<open>src.replace(dst)\<close> renames the file over the target in one step.\<close>

definition replace_file :: "path \<Rightarrow> path \<Rightarrow> world \<Rightarrow> (py_exception + unit) \<times> world" where
  "replace_file src dst w =
     (let w1 = w\<lparr>oplog := oplog w @ [Replace_file src dst]\<rparr>
      in if io_error w src \<or> io_error w dst then (Inl OSError, w1)
         else
           (case files w src of
              None \<Rightarrow> (Inl OSError, w1)
            | Some bs \<Rightarrow> (Inr (), w1\<lparr>files := (files w1)(src := None, dst := Some bs)\<rparr>)))"

text \<open>
  \<^verbatim>\<open>read_text(encoding="utf-8")\<close> decodes strictly and, reading in text mode, turns
  \<^verbatim>\<open>\r\n\<close> and a lone \<^verbatim>\<open>\r\<close> into \<^verbatim>\<open>\n\<close>.
\<close>

fun universal_newlines :: "pystr \<Rightarrow> pystr" where
  "universal_newlines [] = []"
| "universal_newlines [c] = (if c = 13 then [10] else [c])"
| "universal_newlines (c # d # r) =
     (if c = 13 \<and> d = 10 then 10 # universal_newlines r
      else if c = 13 then 10 # universal_newlines (d # r)
      else c # universal_newlines (d # r))"

definition read_text :: "path \<Rightarrow> world \<Rightarrow> py_exception + pystr" where
  "read_text p w =
     (if io_error w p then Inl OSError
      else
        (case files w p of
           None \<Rightarrow> Inl OSError
         | Some bs \<Rightarrow>
             (case bytes_decode Strict bs of
                Inl e \<Rightarrow> Inl e
              | Inr t \<Rightarrow> Inr (universal_newlines t))))"

section \<open>The snapshot file and the handlers\<close>

text \<open>
  \<open>module_file\<close> is the module's \<^verbatim>\<open>__file__\<close>. \<^verbatim>\<open>_write_result_file\<close> serialises the data, and
  \<^verbatim>\<open>_write_sync\<close> writes the text to the temporary path and replaces the result file by
  it; an exception of the first step skips the second. The worker thread the source
  runs \<^verbatim>\<open>_write_sync\<close> on is awaited, so the calls are modelled in sequence.
\<close>

definition result_path :: "path \<Rightarrow> path" where
  "result_path module_file = with_name module_file (str ''result.json'')"

definition tmp_path :: "path \<Rightarrow> path" where
  "tmp_path module_file = with_suffix (result_path module_file) (str ''.json.tmp'')"

definition write_sync :: "path \<Rightarrow> path \<Rightarrow> pystr \<Rightarrow> world \<Rightarrow> (py_exception + unit) \<times> world" where
  "write_sync tmp res payload w =
     (case write_text tmp payload w of
        (Inl e, w1) \<Rightarrow> (Inl e, w1)
      | (Inr _, w1) \<Rightarrow> replace_file tmp res w1)"

definition write_result_file :: "path \<Rightarrow> py \<Rightarrow> world \<Rightarrow> (py_exception + unit) \<times> world" where
  "write_result_file module_file data w =
     (let payload = json_dumps data
      in write_sync (tmp_path module_file) (result_path module_file) payload w)"

text \<open>
  A response is its status code and its content; \<^verbatim>\<open>JSONResponse(content=...)\<close> has the
  status 200. Rendering the content and the console output of the handlers belong to the
  framework and are not modelled. A handler returns its response, or the exception that
  leaves it.
\<close>

record response =
  status_code :: nat
  content :: py

definition JSONResponse :: "nat \<Rightarrow> py \<Rightarrow> response" where
  "JSONResponse code c = \<lparr>status_code = code, content = c\<rparr>"

definition str_of_optional :: "pystr option \<Rightarrow> pystr" where
  "str_of_optional t = (case t of None \<Rightarrow> str ''None'' | Some x \<Rightarrow> x)"

definition py_of_optional :: "pystr option \<Rightarrow> py" where
  "py_of_optional t = (case t of None \<Rightarrow> PyNone | Some x \<Rightarrow> PyStr x)"

definition webhook_from_mt5 ::
  "path \<Rightarrow> pybytes \<Rightarrow> world \<Rightarrow> (py_exception + response) \<times> world" where
  "webhook_from_mt5 module_file raw_body w =
     (case bytes_decode Ignore raw_body of
        Inl e \<Rightarrow> (Inl e, w)
      | Inr raw_text \<Rightarrow>
          (case try_parse_mt5_json raw_text of
             (payload, repaired_text, parse_error) \<Rightarrow>
               if payload = PyNone then
                 (case write_result_file module_file (PyDict []) w of
                    (Inl e, w') \<Rightarrow> (Inl e, w')
                  | (Inr _, w') \<Rightarrow>
                      (Inr (JSONResponse 400
                         (PyDict
                            [(str ''status'', PyStr (str ''invalid_json'')),
                             (str ''error'', PyStr (str_of_optional parse_error)),
                             (str ''raw'', PyStr raw_text),
                             (str ''repaired'',
                              if repaired_text \<noteq> Some raw_text then py_of_optional repaired_text
                              else PyNone)])),
                       w'))
               else
                 (let response_content =
                        PyDict [(str ''status'', PyStr (str ''ok'')), (str ''received'', payload)]
                  in case write_result_file module_file payload w of
                       (Inl e, w') \<Rightarrow> (Inl e, w')
                     | (Inr _, w') \<Rightarrow> (Inr (JSONResponse 200 response_content), w'))))"

definition get_last_result :: "path \<Rightarrow> world \<Rightarrow> response" where
  "get_last_result module_file w =
     (if \<not> path_exists (result_path module_file) w then
        JSONResponse 404
          (PyDict [(str ''status'', PyStr (str ''not_found'')),
                   (str ''detail'', PyStr (str ''result.json does not exist yet''))])
      else
        (case read_text (result_path module_file) w of
           Inl exc \<Rightarrow>
             JSONResponse 500
               (PyDict [(str ''status'', PyStr (str ''invalid_result_json'')),
                        (str ''detail'', PyStr (exc_str exc))])
         | Inr raw \<Rightarrow>
             (case json_loads raw of
                Inl exc \<Rightarrow>
                  JSONResponse 500
                    (PyDict [(str ''status'', PyStr (str ''invalid_result_json'')),
                             (str ''detail'', PyStr (exc_str exc))])
              | Inr data \<Rightarrow> JSONResponse 200 data)))"

section \<open>JSON values\<close>

text \<open>
  The values that \<^verbatim>\<open>json.loads\<close> builds from a JSON text, seen in the model: a string
  is a Python \<^verbatim>\<open>str\<close> (code points up to U+10FFFF), the keys of a dict are distinct, and a
  float is finite, its digits in the form the shortest-digits conversion gives them
  (no leading and no trailing zero, or the single digit of zero). \<^verbatim>\<open>NaN\<close> and the
  infinities are not JSON.
\<close>

definition is_char :: "nat \<Rightarrow> bool" where
  "is_char c \<longleftrightarrow> c < 1114112"

definition canonical_digits :: "nat list \<Rightarrow> int \<Rightarrow> bool" where
  "canonical_digits ds p \<longleftrightarrow>
     ds \<noteq> [] \<and> list_all (\<lambda>d. d < 10) ds \<and>
     (if ds = [0] then p = 1 else hd ds \<noteq> 0 \<and> last ds \<noteq> 0)"

fun valid_json :: "py \<Rightarrow> bool"
and valid_json_list :: "py list \<Rightarrow> bool"
and valid_json_items :: "(pystr \<times> py) list \<Rightarrow> bool"
where
  "valid_json PyNone = True"
| "valid_json (PyBool b) = True"
| "valid_json (PyInt i) = True"
| "valid_json (PyFloat f) =
     (case f of Finite neg ds p \<Rightarrow> canonical_digits ds p | Infinite neg \<Rightarrow> False | NaN \<Rightarrow> False)"
| "valid_json (PyStr s) = list_all is_char s"
| "valid_json (PyList lst) = valid_json_list lst"
| "valid_json (PyDict dct) = (distinct (map fst dct) \<and> valid_json_items dct)"
| "valid_json_list [] = True"
| "valid_json_list (v # vs) = (valid_json v \<and> valid_json_list vs)"
| "valid_json_items [] = True"
| "valid_json_items ((k, v) # kvs) = (list_all is_char k \<and> valid_json v \<and> valid_json_items kvs)"

text \<open>No string of the value, key or not, holds a surrogate code point.\<close>

fun no_surrogates :: "py \<Rightarrow> bool"
and no_surrogates_list :: "py list \<Rightarrow> bool"
and no_surrogates_items :: "(pystr \<times> py) list \<Rightarrow> bool"
where
  "no_surrogates (PyStr s) = list_all (\<lambda>c. \<not> is_surrogate c) s"
| "no_surrogates (PyList lst) = no_surrogates_list lst"
| "no_surrogates (PyDict dct) = no_surrogates_items dct"
| "no_surrogates PyNone = True"
| "no_surrogates (PyBool b) = True"
| "no_surrogates (PyInt i) = True"
| "no_surrogates (PyFloat f) = True"
| "no_surrogates_list [] = True"
| "no_surrogates_list (v # vs) = (no_surrogates v \<and> no_surrogates_list vs)"
| "no_surrogates_items [] = True"
| "no_surrogates_items ((k, v) # kvs) =
     (list_all (\<lambda>c. \<not> is_surrogate c) k \<and> no_surrogates v \<and> no_surrogates_items kvs)"

text \<open>
  The depth of calls that the scanner needs to read a value back, and what may stand
  behind a value in the encoder's output: nothing, a comma or a line feed.
\<close>

fun calls_of :: "py \<Rightarrow> nat"
and calls_of_list :: "py list \<Rightarrow> nat"
and calls_of_items :: "(pystr \<times> py) list \<Rightarrow> nat"
where
  "calls_of (PyList lst) = Suc (calls_of_list lst)"
| "calls_of (PyDict dct) = Suc (calls_of_items dct)"
| "calls_of PyNone = 1"
| "calls_of (PyBool b) = 1"
| "calls_of (PyInt i) = 1"
| "calls_of (PyFloat f) = 1"
| "calls_of (PyStr s) = 1"
| "calls_of_list [] = 0"
| "calls_of_list (v # vs) = Suc (calls_of v + calls_of_list vs)"
| "calls_of_items [] = 0"
| "calls_of_items ((k, v) # kvs) = Suc (calls_of v + calls_of_items kvs)"

definition delimited :: "pystr \<Rightarrow> bool" where
  "delimited rest \<longleftrightarrow> (case rest of [] \<Rightarrow> True | c # _ \<Rightarrow> c = 44 \<or> c = 10)"

section \<open>Notions for the round trip\<close>

text \<open>
  What the proofs about \<^verbatim>\<open>json.dumps\<close> followed by \<^verbatim>\<open>json.loads\<close> speak of: lists of
  decimal digits, a text at whose start a run of digits ends, the sign of a number, the
  characters a value's text can start with, and the code points that the codec encodes and
  that are no carriage return.
\<close>

definition digits :: "nat list \<Rightarrow> bool" where
  "digits ds \<longleftrightarrow> list_all (\<lambda>d. d < 10) ds"

definition stops :: "pystr \<Rightarrow> bool" where
  "stops rest \<longleftrightarrow> (case rest of [] \<Rightarrow> True | c # _ \<Rightarrow> \<not> is_digit c)"

definition sign_text :: "bool \<Rightarrow> pystr" where
  "sign_text neg = (if neg then [45] else [])"

definition value_start :: "nat \<Rightarrow> bool" where
  "value_start c \<longleftrightarrow>
     c = 34 \<or> c = 123 \<or> c = 91 \<or> c = 110 \<or> c = 116 \<or> c = 102 \<or> c = 45 \<or> (48 \<le> c \<and> c \<le> 57)"

definition plain_char :: "nat \<Rightarrow> bool" where
  "plain_char c \<longleftrightarrow> c < 1114112 \<and> \<not> is_surrogate c \<and> c \<noteq> 13"

definition plain_text :: "pystr \<Rightarrow> bool" where
  "plain_text s \<longleftrightarrow> list_all plain_char s"

section \<open>Example inputs\<close>

text \<open>
  A place for the module, a world in which nothing has been written yet and no operation
  fails, and a world whose disk refuses every write.
\<close>

definition server_py :: path where
  "server_py = \<lparr>parent = str ''/opt/render/project/src'', name = str ''server.py''\<rparr>"

definition fresh_world :: world where
  "fresh_world = \<lparr>files = (\<lambda>_. None), io_error = (\<lambda>_. False), oplog = []\<rparr>"

definition broken_disk :: world where
  "broken_disk = \<lparr>files = (\<lambda>_. None), io_error = (\<lambda>_. True), oplog = []\<rparr>"

text \<open>A world that holds an earlier snapshot, and one whose snapshot file is not JSON.\<close>

definition world_with_snapshot :: world where
  \<open>world_with_snapshot =
     \<lparr>files = (\<lambda>p. if p = result_path server_py then Some (bytes ''{"x": 1}'') else None),
      io_error = (\<lambda>_. False), oplog = []\<rparr>\<close>


text \<open>A payload with a string, a float, and a list that holds a string beyond ASCII.\<close>

definition example_payload :: py where
  "example_payload =
     PyDict [(str ''bar_time'', PyStr (str ''2025.12.12 04:05:00'')),
             (str ''price'', PyFloat (Finite False [1, 2, 3] 1)),
             (str ''tags'', PyList [PyInt (- 5), PyNone, PyBool True, PyStr [233, 10, 34]])]"

section \<open>Evaluating the model\<close>

text \<open>
  The definitions that the simplifier unfolds to run the decoder, the repair passes and
  the rendering of an exception on a concrete text.
\<close>

lemmas json_eval =
  json_loads_def skip_ws_def is_ws_def is_digit_def digit_val_def nat_of_digits_def
  float_of_literal_def match_integer_def match_frac_def match_digits_def match_exp_def
  match_number_def hex_val_def decode_uXXXX_def backslash_def scan_escape_def
  dict_of_pairs_def str_def

lemmas re_eval =
  re_space_def re_digit_def re_word_def word_boundary_def next_char_def shape_def
  date_shape_def time_shape_def match_datetime_def match_trailing_comma_def
  match_token_def repair_def str_def

lemmas exc_eval = exc_str_def msg_text_def str_def

subsection \<open>The documented example\<close>

lemma example_strict_parse_fails:
  \<open>json_loads (str ''{"bar_time":2025.12.12 04:05:00,"price":1.23,}'') =
   Inl (JSONDecodeError Expecting_comma_delimiter)\<close>
  by (simp add: json_eval)

lemma example_repair:
  \<open>repair (str ''{"bar_time":2025.12.12 04:05:00,"price":1.23,}'') =
   str ''{"bar_time":"2025.12.12 04:05:00","price":1.23}''\<close>
  by (simp add: re_eval)

lemma example_repaired_parse:
  \<open>json_loads (str ''{"bar_time":"2025.12.12 04:05:00","price":1.23}'') =
   Inr (PyDict [(str ''bar_time'', PyStr (str ''2025.12.12 04:05:00'')),
                (str ''price'', PyFloat (Finite False [1, 2, 3] 1))])\<close>
  by (simp add: json_eval)

text \<open>
  C2. For the text \<^verbatim>\<open>{"bar_time":2025.12.12 04:05:00,"price":1.23,}\<close> the parse succeeds:
  the payload is the dict that maps \<^verbatim>\<open>bar_time\<close> to the string \<^verbatim>\<open>2025.12.12 04:05:00\<close> and
  \<^verbatim>\<open>price\<close> to the float 1.23 (the digits 1, 2, 3 with the decimal point behind the
  first), there is no error message, and the repaired text has the date quoted and no
  comma before the closing brace.
\<close>

theorem parse_bar_time_example:
  \<open>try_parse_mt5_json (str ''{"bar_time":2025.12.12 04:05:00,"price":1.23,}'') =
   (PyDict [(str ''bar_time'', PyStr (str ''2025.12.12 04:05:00'')),
            (str ''price'', PyFloat (Finite False [1, 2, 3] 1))],
    Some (str ''{"bar_time":"2025.12.12 04:05:00","price":1.23}''),
    None)\<close>
  by (simp add: try_parse_mt5_json_def example_strict_parse_fails example_repair
      example_repaired_parse)

subsection \<open>The names of the non-finite floats\<close>

lemma nan_strict_parse_fails:
  \<open>json_loads (str ''{"a":NaN,}'') = Inl (JSONDecodeError Expecting_property_name)\<close>
  by (simp add: json_eval)

lemma nan_repair: \<open>repair (str ''{"a":NaN,}'') = str ''{"a":null}''\<close>
  by (simp add: re_eval)

lemma nan_repaired_parse: \<open>json_loads (str ''{"a":null}'') = Inr (PyDict [(str ''a'', PyNone)])\<close>
  by (simp add: json_eval)

text \<open>A bare \<^verbatim>\<open>NaN\<close> in a text that needs repair becomes \<^verbatim>\<open>null\<close>.\<close>

lemma parse_bare_nan:
  \<open>try_parse_mt5_json (str ''{"a":NaN,}'') =
   (PyDict [(str ''a'', PyNone)], Some (str ''{"a":null}''), None)\<close>
  by (simp add: try_parse_mt5_json_def nan_strict_parse_fails nan_repair nan_repaired_parse)

lemma neg_infinity_strict_parse_fails:
  \<open>json_loads (str ''{"a":-Infinity,}'') = Inl (JSONDecodeError Expecting_property_name)\<close>
  by (simp add: json_eval)

lemma neg_infinity_repair: \<open>repair (str ''{"a":-Infinity,}'') = str ''{"a":-null}''\<close>
  by (simp add: re_eval)

lemma neg_infinity_repaired_parse_fails:
  \<open>json_loads (str ''{"a":-null}'') = Inl (JSONDecodeError Expecting_value)\<close>
  by (simp add: json_eval)

lemma neg_infinity_pass_alone:
  \<open>re_sub (match_token (str ''-Infinity'') (str ''null'')) None (str ''{"a":-Infinity,}'') =
   str ''{"a":-Infinity,}''\<close>
  by (simp add: re_eval)

lemma neg_infinity_error_text:
  \<open>exc_str (JSONDecodeError Expecting_property_name) @ str '' | after_repair: '' @
   exc_str (JSONDecodeError Expecting_value) =
   str ''Expecting property name enclosed in double quotes | after_repair: Expecting value''\<close>
  by (simp add: exc_eval)

text \<open>
  C7. The text \<^verbatim>\<open>{"a":-Infinity,}\<close> needs repair and has a field whose value is the bare
  token \<^verbatim>\<open>-Infinity\<close>. The pass for \<^verbatim>\<open>Infinity\<close> runs before the pass for
  \<^verbatim>\<open>-Infinity\<close> and leaves \<^verbatim>\<open>-null\<close>, which is not JSON: the parse fails, with both
  error messages, and no field is \<^verbatim>\<open>null\<close>. The pass for \<^verbatim>\<open>-Infinity\<close> would not have
  matched on its own either, since \<^verbatim>\<open>\b\<close> before the minus sign asks for a word
  character in front of it.
\<close>

theorem parse_bare_neg_infinity_fails:
  \<open>try_parse_mt5_json (str ''{"a":-Infinity,}'') =
   (PyNone, Some (str ''{"a":-null}''),
    Some (str ''Expecting property name enclosed in double quotes | after_repair: Expecting value''))
   \<and> re_sub (match_token (str ''-Infinity'') (str ''null'')) None (str ''{"a":-Infinity,}'') =
     str ''{"a":-Infinity,}''\<close>
  by (simp add: try_parse_mt5_json_def neg_infinity_strict_parse_fails neg_infinity_repair
      neg_infinity_repaired_parse_fails neg_infinity_pass_alone neg_infinity_error_text)

subsection \<open>Repairs inside string literals\<close>

lemma quoted_nan_strict_parse_fails:
  \<open>json_loads (str ''{"a":"NaN",}'') = Inl (JSONDecodeError Expecting_property_name)\<close>
  by (simp add: json_eval)

lemma quoted_nan_repair: \<open>repair (str ''{"a":"NaN",}'') = str ''{"a":"null"}''\<close>
  by (simp add: re_eval)

lemma quoted_nan_repaired_parse:
  \<open>json_loads (str ''{"a":"null"}'') = Inr (PyDict [(str ''a'', PyStr (str ''null''))])\<close>
  by (simp add: json_eval)

lemma quoted_nan_without_comma:
  \<open>json_loads (str ''{"a":"NaN"}'') = Inr (PyDict [(str ''a'', PyStr (str ''NaN''))])\<close>
  by (simp add: json_eval)

text \<open>
  C10. The repair passes do not look at string literals. The text \<^verbatim>\<open>{"a":"NaN",}\<close> fails
  the strict parse (for its trailing comma) and holds the string literal \<^verbatim>\<open>"NaN"\<close>, whose
  content is \<^verbatim>\<open>NaN\<close>, as the parse of the same object without the comma shows; the
  payload of the repaired text holds the string \<^verbatim>\<open>null\<close> in its place.
\<close>

theorem repair_rewrites_string_content:
  \<open>json_loads (str ''{"a":"NaN",}'') = Inl (JSONDecodeError Expecting_property_name)
   \<and> json_loads (str ''{"a":"NaN"}'') = Inr (PyDict [(str ''a'', PyStr (str ''NaN''))])
   \<and> try_parse_mt5_json (str ''{"a":"NaN",}'') =
       (PyDict [(str ''a'', PyStr (str ''null''))], Some (str ''{"a":"null"}''), None)
   \<and> str ''null'' \<noteq> str ''NaN''\<close>
  by (simp add: try_parse_mt5_json_def quoted_nan_strict_parse_fails quoted_nan_repair
      quoted_nan_repaired_parse quoted_nan_without_comma) (simp add: str_def)

section \<open>Properties of the codec\<close>

subsection \<open>Groups of six bits\<close>

lemma dm64:
  fixes x d :: nat
  assumes "d < 64"
  shows "(64 * x + d) div 64 = x" "(64 * x + d) mod 64 = d"
  using assms by simp_all

lemma div_4096: "(c::nat) div 4096 = c div 64 div 64"
proof -
  have "c div (64 * 64) = c div 64 div 64" by (rule div_mult2_eq)
  then show ?thesis by simp
qed

lemma div_262144: "(c::nat) div 262144 = c div 64 div 64 div 64"
proof -
  have "c div (4096 * 64) = c div 4096 div 64" by (rule div_mult2_eq)
  then show ?thesis by (simp add: div_4096)
qed

lemma groups2:
  fixes a d :: nat
  assumes "d < 64"
  shows "(64 * a + d) div 64 = a" "(64 * a + d) mod 64 = d"
  using assms by simp_all

lemma groups3:
  fixes a b d :: nat
  assumes "b < 64" "d < 64"
  shows "(4096 * a + 64 * b + d) div 4096 = a"
    "(4096 * a + 64 * b + d) div 64 mod 64 = b"
    "(4096 * a + 64 * b + d) mod 64 = d"
proof -
  have e: "4096 * a + 64 * b + d = 64 * (64 * a + b) + d" by simp
  show "(4096 * a + 64 * b + d) mod 64 = d"
    by (simp only: e dm64(2) [OF assms(2)])
  have q: "(4096 * a + 64 * b + d) div 64 = 64 * a + b"
    by (simp only: e dm64(1) [OF assms(2)])
  show "(4096 * a + 64 * b + d) div 64 mod 64 = b"
    by (simp only: q dm64(2) [OF assms(1)])
  show "(4096 * a + 64 * b + d) div 4096 = a"
    by (simp only: div_4096 q dm64(1) [OF assms(1)])
qed

lemma groups4:
  fixes a b d g :: nat
  assumes "b < 64" "d < 64" "g < 64"
  shows "(262144 * a + 4096 * b + 64 * d + g) div 262144 = a"
    "(262144 * a + 4096 * b + 64 * d + g) div 4096 mod 64 = b"
    "(262144 * a + 4096 * b + 64 * d + g) div 64 mod 64 = d"
    "(262144 * a + 4096 * b + 64 * d + g) mod 64 = g"
proof -
  have e: "262144 * a + 4096 * b + 64 * d + g = 64 * (4096 * a + 64 * b + d) + g" by simp
  show "(262144 * a + 4096 * b + 64 * d + g) mod 64 = g"
    by (simp only: e dm64(2) [OF assms(3)])
  have q: "(262144 * a + 4096 * b + 64 * d + g) div 64 = 4096 * a + 64 * b + d"
    by (simp only: e dm64(1) [OF assms(3)])
  show "(262144 * a + 4096 * b + 64 * d + g) div 64 mod 64 = d"
    by (simp only: q groups3(3) [OF assms(1,2)])
  have q2: "(262144 * a + 4096 * b + 64 * d + g) div 4096 = 64 * a + b"
  proof -
    have f: "4096 * a + 64 * b + d = 64 * (64 * a + b) + d" by simp
    show ?thesis by (simp only: div_4096 q f dm64(1) [OF assms(2)])
  qed
  show "(262144 * a + 4096 * b + 64 * d + g) div 4096 mod 64 = b"
    by (simp only: q2 dm64(2) [OF assms(1)])
  have "(262144 * a + 4096 * b + 64 * d + g) div 262144 =
        (262144 * a + 4096 * b + 64 * d + g) div 4096 div 64"
    by (simp only: div_262144 div_4096)
  then show "(262144 * a + 4096 * b + 64 * d + g) div 262144 = a"
    by (simp only: q2 dm64(1) [OF assms(1)])
qed

lemma enc_char2:
  fixes a d :: nat
  assumes "2 \<le> a" "a < 32" "d < 64"
  shows "utf8_encode_char (64 * a + d) = Some [192 + a, 128 + d]"
proof -
  have r: "\<not> 64 * a + d < 128" "64 * a + d < 2048" using assms by linarith+
  show ?thesis
    unfolding utf8_encode_char_def
    by (simp only: r if_False if_True dm64 [OF assms(3)])
qed

lemma enc_char3:
  fixes a b d :: nat
  assumes "a < 16" "b < 64" "d < 64" "a = 0 \<longrightarrow> 32 \<le> b" "a = 13 \<longrightarrow> b < 32"
  shows "utf8_encode_char (4096 * a + 64 * b + d) = Some [224 + a, 128 + b, 128 + d]"
proof -
  have r: "2048 \<le> 4096 * a + 64 * b + d" "4096 * a + 64 * b + d < 65536"
    using assms by linarith+
  have s: "\<not> is_surrogate (4096 * a + 64 * b + d)"
  proof -
    consider "a \<le> 12" | "a = 13" | "14 \<le> a" by linarith
    then have "\<not> (55296 \<le> 4096 * a + 64 * b + d \<and> 4096 * a + 64 * b + d \<le> 57343)"
    proof cases
      case 1
      then show ?thesis using assms(2,3) by linarith
    next
      case 2
      then have "b < 32" using assms by simp
      with 2 show ?thesis using assms(3) by linarith
    next
      case 3
      then show ?thesis by linarith
    qed
    then show ?thesis unfolding is_surrogate_def .
  qed
  from r have n: "\<not> 4096 * a + 64 * b + d < 128" "\<not> 4096 * a + 64 * b + d < 2048" by linarith+
  show ?thesis
    unfolding utf8_encode_char_def
    by (simp only: n r s if_False if_True groups3 [OF assms(2,3)])
qed

lemma enc_char4:
  fixes a b d g :: nat
  assumes "a < 5" "b < 64" "d < 64" "g < 64" "a = 0 \<longrightarrow> 16 \<le> b" "a = 4 \<longrightarrow> b < 16"
  shows "utf8_encode_char (262144 * a + 4096 * b + 64 * d + g) =
         Some [240 + a, 128 + b, 128 + d, 128 + g]"
proof -
  have r: "65536 \<le> 262144 * a + 4096 * b + 64 * d + g"
    "262144 * a + 4096 * b + 64 * d + g < 1114112"
    using assms by linarith+
  from r have n: "\<not> 262144 * a + 4096 * b + 64 * d + g < 128"
    "\<not> 262144 * a + 4096 * b + 64 * d + g < 2048"
    "\<not> 262144 * a + 4096 * b + 64 * d + g < 65536" by linarith+
  show ?thesis
    unfolding utf8_encode_char_def
    by (simp only: n r if_False if_True groups4 [OF assms(2,3,4)])
qed

lemma step_char2:
  fixes a d :: nat
  assumes "2 \<le> a" "a < 32" "d < 64"
  shows "utf8_step (192 + a) ((128 + d) # rest) = Decoded (64 * a + d) 1"
proof -
  have v: "(192 + a) * 64 + (128 + d) - 12416 = 64 * a + d" by simp
  have c: "is_continuation (128 + d)" using assms by (simp add: is_continuation_def)
  have r: "\<not> 192 + a < 128" "\<not> 192 + a < 194" "192 + a < 224" using assms by linarith+
  show ?thesis
    unfolding utf8_step_def by (simp only: r c v if_False if_True list.case not_True_eq_False)
qed

lemma step_char3:
  fixes a b d :: nat
  assumes "a < 16" "b < 64" "d < 64" "a = 0 \<longrightarrow> 32 \<le> b" "a = 13 \<longrightarrow> b < 32"
  shows "utf8_step (224 + a) ((128 + b) # (128 + d) # rest) = Decoded (4096 * a + 64 * b + d) 2"
proof -
  have v: "(224 + a) * 4096 + (128 + b) * 64 + (128 + d) - 925824 = 4096 * a + 64 * b + d"
    by simp
  have c: "is_continuation (128 + b)" "is_continuation (128 + d)"
    using assms by (simp_all add: is_continuation_def)
  have r: "\<not> 224 + a < 128" "\<not> 224 + a < 194" "\<not> 224 + a < 224" "224 + a < 240"
    using assms by linarith+
  have g: "\<not> (if 128 + b < 160 then 224 + a = 224 else 224 + a = 237)"
    using assms by auto
  show ?thesis
    unfolding utf8_step_def
    by (simp only: r c v g if_False if_True list.case not_True_eq_False simp_thms)
qed

lemma step_char4:
  fixes a b d g :: nat
  assumes "a < 5" "b < 64" "d < 64" "g < 64" "a = 0 \<longrightarrow> 16 \<le> b" "a = 4 \<longrightarrow> b < 16"
  shows "utf8_step (240 + a) ((128 + b) # (128 + d) # (128 + g) # rest) =
         Decoded (262144 * a + 4096 * b + 64 * d + g) 3"
proof -
  have v: "(240 + a) * 262144 + (128 + b) * 4096 + (128 + d) * 64 + (128 + g) - 63447168 =
           262144 * a + 4096 * b + 64 * d + g"
    by simp
  have c: "is_continuation (128 + b)" "is_continuation (128 + d)" "is_continuation (128 + g)"
    using assms by (simp_all add: is_continuation_def)
  have r: "\<not> 240 + a < 128" "\<not> 240 + a < 194" "\<not> 240 + a < 224" "\<not> 240 + a < 240"
    "240 + a < 245"
    using assms by linarith+
  have h: "\<not> (if 128 + b < 144 then 240 + a = 240 else 240 + a = 244)"
    using assms by auto
  show ?thesis
    unfolding utf8_step_def
    by (simp only: r c v h if_False if_True list.case not_True_eq_False simp_thms)
qed

lemma decomp2: "(c::nat) = 64 * (c div 64) + c mod 64"
  by simp

lemma decomp3: "(c::nat) = 4096 * (c div 4096) + 64 * (c div 64 mod 64) + c mod 64"
proof -
  have "c div 64 = 64 * (c div 64 div 64) + c div 64 mod 64" by simp
  moreover have "c div 64 div 64 = c div 4096" by (simp add: div_4096)
  moreover have "c = 64 * (c div 64) + c mod 64" by simp
  ultimately show ?thesis by linarith
qed

lemma decomp4:
  "(c::nat) = 262144 * (c div 262144) + 4096 * (c div 4096 mod 64) + 64 * (c div 64 mod 64) + c mod 64"
proof -
  have "c div 4096 = 64 * (c div 4096 div 64) + c div 4096 mod 64" by simp
  moreover have "c div 4096 div 64 = c div 262144" by (simp add: div_262144 div_4096)
  moreover have "c = 4096 * (c div 4096) + 64 * (c div 64 mod 64) + c mod 64" by (rule decomp3)
  ultimately show ?thesis by linarith
qed

lemma utf8_step_encode_char:
  assumes "utf8_encode_char c = Some (b # e)"
  shows "utf8_step b (e @ rest) = Decoded c (length e)"
proof -
  consider "c < 128" | "128 \<le> c" "c < 2048" | "2048 \<le> c" "c < 65536" | "65536 \<le> c"
    by linarith
  then show ?thesis
  proof cases
    case 1
    with assms show ?thesis by (simp add: utf8_encode_char_def utf8_step_def)
  next
    case 2
    define a d where "a = c div 64" and "d = c mod 64"
    have c: "c = 64 * a + d" unfolding a_def d_def by simp
    have d: "d < 64" unfolding d_def by simp
    have a: "2 \<le> a" "a < 32" using 2 c d by linarith+
    have "utf8_encode_char c = Some [192 + a, 128 + d]" unfolding c by (rule enc_char2 [OF a d])
    with assms have "b = 192 + a" "e = [128 + d]" by simp_all
    then show ?thesis using step_char2 [OF a d, of rest] by (simp add: c)
  next
    case 3
    define a b' d where "a = c div 4096" and "b' = c div 64 mod 64" and "d = c mod 64"
    have c: "c = 4096 * a + 64 * b' + d" unfolding a_def b'_def d_def by (rule decomp3)
    have bd: "b' < 64" "d < 64" unfolding b'_def d_def by simp_all
    have a: "a < 16" using 3 c bd by linarith
    have ns: "\<not> is_surrogate c" using assms 3 by (auto simp: utf8_encode_char_def split: if_splits)
    have z: "a = 0 \<longrightarrow> 32 \<le> b'" using 3 c bd by auto
    have s: "a = 13 \<longrightarrow> b' < 32" using ns c bd unfolding is_surrogate_def by auto
    have "utf8_encode_char c = Some [224 + a, 128 + b', 128 + d]"
      unfolding c by (rule enc_char3 [OF a bd z s])
    with assms have "b = 224 + a" "e = [128 + b', 128 + d]" by simp_all
    then show ?thesis using step_char3 [OF a bd z s, of rest] by (simp add: c)
  next
    case 4
    with assms have u: "c < 1114112" by (auto simp: utf8_encode_char_def split: if_splits)
    define a b' d g where "a = c div 262144" and "b' = c div 4096 mod 64"
      and "d = c div 64 mod 64" and "g = c mod 64"
    have c: "c = 262144 * a + 4096 * b' + 64 * d + g"
      unfolding a_def b'_def d_def g_def by (rule decomp4)
    have bd: "b' < 64" "d < 64" "g < 64" unfolding b'_def d_def g_def by simp_all
    have a: "a < 5" using u c bd by linarith
    have z: "a = 0 \<longrightarrow> 16 \<le> b'" using 4 c bd by auto
    have s: "a = 4 \<longrightarrow> b' < 16" using u c bd by auto
    have "utf8_encode_char c = Some [240 + a, 128 + b', 128 + d, 128 + g]"
      unfolding c by (rule enc_char4 [OF a bd z s])
    with assms have "b = 240 + a" "e = [128 + b', 128 + d, 128 + g]" by simp_all
    then show ?thesis using step_char4 [OF a bd z s, of rest] by (simp add: c)
  qed
qed




lemma utf8_decode_ignore_total: "\<exists>t. utf8_decode Ignore bs = Inr t"
proof (induction bs rule: length_induct)
  case (1 bs)
  show ?case
  proof (cases bs)
    case Nil
    then show ?thesis by simp
  next
    case (Cons ch rest)
    have ih: "\<exists>t. utf8_decode Ignore (drop k rest) = Inr t" for k
      using 1 Cons by simp
    show ?thesis
    proof (cases "utf8_step ch rest")
      case (Decoded c k)
      with ih [of k] Cons show ?thesis by auto
    next
      case (Invalid k)
      with ih [of k] Cons show ?thesis by auto
    qed
  qed
qed

lemma utf8_encode_char_nonempty: "utf8_encode_char c \<noteq> Some []"
  by (simp add: utf8_encode_char_def)

lemma utf8_decode_encode:
  "utf8_encode s = Inr bs \<Longrightarrow> utf8_decode errs bs = Inr s"
proof (induction s arbitrary: bs)
  case Nil
  then show ?case by simp
next
  case (Cons c s)
  from Cons.prems obtain e r where e: "utf8_encode_char c = Some e"
    and r: "utf8_encode s = Inr r" and bs: "bs = e @ r"
    by (auto split: option.splits sum.splits)
  from e obtain b e' where be: "e = b # e'"
    using utf8_encode_char_nonempty by (cases e) auto
  have "utf8_step b (e' @ r) = Decoded c (length e')"
    using e be utf8_step_encode_char by simp
  moreover have "utf8_decode errs r = Inr s" using Cons.IH r by simp
  ultimately show ?case by (simp add: bs be)
qed



subsection \<open>Bytes\<close>

lemma utf8_encode_bytes: "utf8_encode s = Inr bs \<Longrightarrow> \<forall>b\<in>set bs. b < 256"
proof (induction s arbitrary: bs)
  case Nil
  then show ?case by simp
next
  case (Cons c s)
  from Cons.prems obtain e r where e: "utf8_encode_char c = Some e"
    and r: "utf8_encode s = Inr r" and bs: "bs = e @ r"
    by (auto split: option.splits sum.splits)
  have "\<forall>b\<in>set e. b < 256"
    using e by (auto simp: utf8_encode_char_def split: if_splits)
  with Cons.IH [OF r] bs show ?case by auto
qed

lemma unat_of_nat_byte: "b < 256 \<Longrightarrow> unat (of_nat b :: 8 word) = b"
  by (simp add: unat_of_nat)

lemma map_unat_of_nat_bytes:
  "\<forall>b\<in>set bs. b < 256 \<Longrightarrow> map unat (map of_nat bs :: 8 word list) = bs"
  by (induction bs) (simp_all add: unat_of_nat_byte)


lemma bytes_decode_str_encode:
  assumes "str_encode s = Inr bs"
  shows "bytes_decode errs bs = Inr s"
proof -
  from assms obtain ns where ns: "utf8_encode s = Inr ns" and bs: "bs = map of_nat ns"
    by (auto simp: str_encode_def split: sum.splits)
  have "map unat bs = ns" unfolding bs using utf8_encode_bytes [OF ns] by (rule map_unat_of_nat_bytes)
  then show ?thesis using utf8_decode_encode [OF ns] by (simp add: bytes_decode_def)
qed


lemmas codec_eval = bytes_decode_def str_encode_def utf8_step_def utf8_encode_char_def
  is_continuation_def is_surrogate_def






section \<open>The snapshot file\<close>

lemma name_result_path: "name (result_path f) = str ''result.json''"
  by (simp add: result_path_def with_name_def)

lemma name_tmp_path: "name (tmp_path f) = str ''result.json.tmp''"
  by (simp add: tmp_path_def with_suffix_def path_suffix_def result_path_def with_name_def
      str_def Let_def)

lemma tmp_path_neq_result_path: "tmp_path f \<noteq> result_path f"
proof
  assume "tmp_path f = result_path f"
  then have "name (tmp_path f) = name (result_path f)" by simp
  then show False by (simp add: name_result_path name_tmp_path str_def)
qed

lemma write_text_other_file:
  "p \<noteq> q \<Longrightarrow> files (snd (write_text p data w)) q = files w q"
  by (simp add: write_text_def Let_def split: sum.splits)

lemma write_sync_ok:
  assumes "\<not> io_error w tmp" "\<not> io_error w res" "tmp \<noteq> res" "str_encode payload = Inr bs"
  shows "write_sync tmp res payload w =
         (Inr (), w\<lparr>oplog := oplog w @ [Write_text tmp, Replace_file tmp res],
                    files := (files w)(tmp := None, res := Some bs)\<rparr>)"
  using assms by (simp add: write_sync_def write_text_def replace_file_def Let_def)

lemma write_result_file_ok:
  assumes "\<not> io_error w (tmp_path f)" "\<not> io_error w (result_path f)"
    and "str_encode (json_dumps data) = Inr bs"
  shows "write_result_file f data w =
         (Inr (), w\<lparr>oplog := oplog w @ [Write_text (tmp_path f), Replace_file (tmp_path f) (result_path f)],
                    files := (files w)(tmp_path f := None, result_path f := Some bs)\<rparr>)"
  unfolding write_result_file_def Let_def
  by (rule write_sync_ok [OF assms(1,2) tmp_path_neq_result_path assms(3)])

lemma write_result_file_io_error:
  assumes "io_error w (tmp_path f)"
  shows "write_result_file f data w = (Inl OSError, w\<lparr>oplog := oplog w @ [Write_text (tmp_path f)]\<rparr>)"
  using assms by (simp add: write_result_file_def write_sync_def write_text_def Let_def)

lemma get_last_result_stored:
  assumes "files w (result_path f) = Some bs" "\<not> io_error w (result_path f)"
    and "str_encode t = Inr bs" "universal_newlines t = t" "json_loads t = Inr v"
  shows "get_last_result f w = JSONResponse 200 v"
  using assms bytes_decode_str_encode [OF assms(3), of Strict]
  by (simp add: get_last_result_def path_exists_def read_text_def)

lemma dumps_empty_dict: "json_dumps (PyDict []) = str ''{}''"
  by (simp add: json_dumps_def)

lemma encode_empty_dict: "str_encode (str ''{}'') = Inr (bytes ''{}'')"
  by (simp add: codec_eval str_def bytes_def)

lemma loads_empty_dict: "json_loads (str ''{}'') = Inr (PyDict [])"
  by (simp add: json_eval)

lemma newlines_empty_dict: "universal_newlines (str ''{}'') = str ''{}''"
  by (simp add: str_def)

lemma store_empty_dict:
  assumes "\<not> io_error w (tmp_path f)" "\<not> io_error w (result_path f)"
  shows "\<exists>w'. write_result_file f (PyDict []) w = (Inr (), w') \<and>
              get_last_result f w' = JSONResponse 200 (PyDict [])"
proof -
  let ?w = "w\<lparr>oplog := oplog w @ [Write_text (tmp_path f), Replace_file (tmp_path f) (result_path f)],
               files := (files w)(tmp_path f := None, result_path f := Some (bytes ''{}''))\<rparr>"
  have "write_result_file f (PyDict []) w = (Inr (), ?w)"
    using assms by (rule write_result_file_ok) (simp add: dumps_empty_dict encode_empty_dict)
  moreover have "get_last_result f ?w = JSONResponse 200 (PyDict [])"
    by (rule get_last_result_stored [where t = "str ''{}''" and bs = "bytes ''{}''"])
      (simp_all add: assms encode_empty_dict newlines_empty_dict loads_empty_dict)
  ultimately show ?thesis by blast
qed

section \<open>The handlers\<close>

lemma write_result_file_failure:
  assumes "write_result_file f data w = (Inl e, w')"
  shows "files w' (result_path f) = files w (result_path f) \<and>
         (oplog w' = oplog w @ [Write_text (tmp_path f)] \<or>
          oplog w' = oplog w @ [Write_text (tmp_path f), Replace_file (tmp_path f) (result_path f)])"
  using assms tmp_path_neq_result_path [of f]
  by (auto simp: write_result_file_def write_sync_def write_text_def replace_file_def Let_def
      split: sum.splits if_splits option.splits)

lemma write_result_file_fails:
  assumes "io_error w (tmp_path f) \<or> io_error w (result_path f)"
  shows "\<exists>e w'. write_result_file f data w = (Inl e, w')"
  using assms
  by (auto simp: write_result_file_def write_sync_def write_text_def replace_file_def Let_def
      split: sum.splits if_splits option.splits)

lemma bytes_decode_ignore_total: "\<exists>t. bytes_decode Ignore bs = Inr t"
  using utf8_decode_ignore_total [of "map unat bs"] by (simp add: bytes_decode_def)

lemma webhook_write_failure:
  assumes "io_error w (tmp_path f) \<or> io_error w (result_path f)"
  shows "\<exists>e w'. webhook_from_mt5 f raw_body w = (Inl e, w') \<and>
           files w' (result_path f) = files w (result_path f) \<and>
           (oplog w' = oplog w @ [Write_text (tmp_path f)] \<or>
            oplog w' = oplog w @ [Write_text (tmp_path f), Replace_file (tmp_path f) (result_path f)]) \<and>
           (io_error w (tmp_path f) \<longrightarrow> e = OSError)"
proof -
  obtain raw_text where d: "bytes_decode Ignore raw_body = Inr raw_text"
    using bytes_decode_ignore_total by blast
  obtain payload rep err where p: "try_parse_mt5_json raw_text = (payload, rep, err)"
    by (cases "try_parse_mt5_json raw_text") auto
  define data where "data = (if payload = PyNone then PyDict [] else payload)"
  obtain e w' where f: "write_result_file f data w = (Inl e, w')"
    using write_result_file_fails [OF assms] by blast
  have "webhook_from_mt5 f raw_body w = (Inl e, w')"
    using d p f by (cases "payload = PyNone") (simp_all add: webhook_from_mt5_def data_def Let_def)
  moreover have "io_error w (tmp_path f) \<longrightarrow> e = OSError"
    using f write_result_file_io_error [of w f data] by auto
  ultimately show ?thesis using write_result_file_failure [OF f] by blast
qed

lemma webhook_none_branch:
  assumes "bytes_decode Ignore raw_body = Inr raw_text"
    and "try_parse_mt5_json raw_text = (PyNone, rep, err)"
    and "\<not> io_error w (tmp_path f)" "\<not> io_error w (result_path f)"
  shows "\<exists>w'. webhook_from_mt5 f raw_body w =
           (Inr (JSONResponse 400
              (PyDict [(str ''status'', PyStr (str ''invalid_json'')),
                       (str ''error'', PyStr (str_of_optional err)),
                       (str ''raw'', PyStr raw_text),
                       (str ''repaired'',
                        if rep \<noteq> Some raw_text then py_of_optional rep else PyNone)])), w') \<and>
           get_last_result f w' = JSONResponse 200 (PyDict [])"
proof -
  from store_empty_dict [OF assms(3,4)] obtain w' where
    w: "write_result_file f (PyDict []) w = (Inr (), w')"
    and g: "get_last_result f w' = JSONResponse 200 (PyDict [])" by blast
  show ?thesis using assms(1,2) w g by (simp add: webhook_from_mt5_def)
qed













lemma null_decoded: \<open>bytes_decode Ignore (bytes ''null'') = Inr (str ''null'')\<close>
  by (simp add: codec_eval bytes_def str_def)

lemma null_parse: \<open>json_loads (str ''null'') = Inr PyNone\<close>
  by (simp add: json_eval)

text \<open>
  C1, at the body \<^verbatim>\<open>null\<close>. The text is valid JSON and \<^verbatim>\<open>json.loads\<close> returns its
  value, \<^verbatim>\<open>None\<close>, so \<^verbatim>\<open>_try_parse_mt5_json\<close> returns \<^verbatim>\<open>(None, None, None)\<close>. That is
  the shape of a failure: the webhook takes the branch \<^verbatim>\<open>payload is None\<close>, answers 400
  \<^verbatim>\<open>invalid_json\<close> with the error text \<^verbatim>\<open>None\<close>, and stores the empty dict instead of
  the value.
\<close>

theorem webhook_rejects_json_null:
  \<open>json_loads (str ''null'') = Inr PyNone
   \<and> try_parse_mt5_json (str ''null'') = (PyNone, None, None)
   \<and> fst (webhook_from_mt5 server_py (bytes ''null'') fresh_world) =
       Inr (JSONResponse 400
         (PyDict [(str ''status'', PyStr (str ''invalid_json'')),
                  (str ''error'', PyStr (str ''None'')),
                  (str ''raw'', PyStr (str ''null'')),
                  (str ''repaired'', PyNone)]))
   \<and> get_last_result server_py (snd (webhook_from_mt5 server_py (bytes ''null'') fresh_world)) =
       JSONResponse 200 (PyDict [])\<close>
proof -
  have t: \<open>try_parse_mt5_json (str ''null'') = (PyNone, None, None)\<close>
    by (simp add: try_parse_mt5_json_def null_parse)
  have io: "\<not> io_error fresh_world (tmp_path server_py)"
    "\<not> io_error fresh_world (result_path server_py)"
    by (simp_all add: fresh_world_def)
  from webhook_none_branch [OF null_decoded t io]
  show ?thesis by (auto simp: null_parse t str_of_optional_def py_of_optional_def)
qed

text \<open>
  C8, as the code has it. When the operating system refuses the write of the temporary
  file or the replacement of the result file, the webhook returns no response: the
  exception leaves the handler, whatever the parse gave. The result file keeps its
  content, and the log shows one attempt to write and at most one to replace, so nothing
  is retried. A refused write of the temporary file surfaces as \<open>OSError\<close>.
\<close>

theorem webhook_write_error_leaves_handler:
  assumes "io_error w (tmp_path f) \<or> io_error w (result_path f)"
  shows "\<exists>e w'. webhook_from_mt5 f raw_body w = (Inl e, w') \<and>
           files w' (result_path f) = files w (result_path f) \<and>
           (oplog w' = oplog w @ [Write_text (tmp_path f)] \<or>
            oplog w' = oplog w @ [Write_text (tmp_path f), Replace_file (tmp_path f) (result_path f)]) \<and>
           (io_error w (tmp_path f) \<longrightarrow> e = OSError)"
  using assms by (rule webhook_write_failure)

theorem webhook_write_error_witness:
  \<open>io_error broken_disk (tmp_path server_py)
   \<and> fst (webhook_from_mt5 server_py (bytes ''{"a":1}'') broken_disk) = Inl OSError
   \<and> files (snd (webhook_from_mt5 server_py (bytes ''{"a":1}'') broken_disk)) (result_path server_py) = None\<close>
proof -
  have io: "io_error broken_disk (tmp_path server_py)" by (simp add: broken_disk_def)
  have f: "files broken_disk (result_path server_py) = None" by (simp add: broken_disk_def)
  from webhook_write_error_leaves_handler [of broken_disk server_py \<open>bytes ''{"a":1}''\<close>] io
  show ?thesis by (auto simp: f)
qed

lemma ok_payload_parse: \<open>json_loads (str ''{"a":1}'') = Inr (PyDict [(str ''a'', PyInt 1)])\<close>
  by (simp add: json_eval)

text \<open>
  The claim as the specification words it fails on a disk that refuses the write: the
  body \<^verbatim>\<open>{"a":1}\<close> parses, and the handler still ends with the exception instead of
  the \<^verbatim>\<open>ok\<close> response.
\<close>

theorem webhook_write_error_counterexample:
  \<open>json_loads (str ''{"a":1}'') = Inr (PyDict [(str ''a'', PyInt 1)])
   \<and> fst (webhook_from_mt5 server_py (bytes ''{"a":1}'') broken_disk) = Inl OSError\<close>
proof -
  have io: "io_error broken_disk (tmp_path server_py)" by (simp add: broken_disk_def)
  from webhook_write_failure [of broken_disk server_py \<open>bytes ''{"a":1}''\<close>] io
  show ?thesis by (auto simp: ok_payload_parse)
qed

text \<open>
  C3. \<^verbatim>\<open>_write_result_file\<close> writes the indented JSON text of the data to the temporary
  path, which differs from the result path, and that step leaves the result file as it
  was. If the step raises, nothing else happens; if it succeeds, the rest of the call is
  the replacement of the result file by the temporary one. After a successful call the
  result file holds the encoded text, the temporary file is gone, and the log shows the
  write followed by the replacement; after a failed call the result file is unchanged.
\<close>

theorem write_result_file_steps:
  "tmp_path f \<noteq> result_path f
   \<and> files (snd (write_text (tmp_path f) (json_dumps data) w)) (result_path f) =
       files w (result_path f)
   \<and> (\<forall>e. fst (write_text (tmp_path f) (json_dumps data) w) = Inl e \<longrightarrow>
          write_result_file f data w = (Inl e, snd (write_text (tmp_path f) (json_dumps data) w)))
   \<and> (fst (write_text (tmp_path f) (json_dumps data) w) = Inr () \<longrightarrow>
          write_result_file f data w =
          replace_file (tmp_path f) (result_path f)
            (snd (write_text (tmp_path f) (json_dumps data) w)))
   \<and> (\<forall>w'. write_result_file f data w = (Inr (), w') \<longrightarrow>
          (\<exists>bs. str_encode (json_dumps data) = Inr bs \<and>
                files w' (result_path f) = Some bs \<and>
                files w' (tmp_path f) = None \<and>
                oplog w' = oplog w @ [Write_text (tmp_path f),
                                      Replace_file (tmp_path f) (result_path f)]))
   \<and> (\<forall>e w'. write_result_file f data w = (Inl e, w') \<longrightarrow>
          files w' (result_path f) = files w (result_path f))"
proof (intro conjI allI impI)
  show "tmp_path f \<noteq> result_path f" by (rule tmp_path_neq_result_path)
  show "files (snd (write_text (tmp_path f) (json_dumps data) w)) (result_path f) =
        files w (result_path f)"
    by (rule write_text_other_file [OF tmp_path_neq_result_path])
  show "write_result_file f data w = (Inl e, snd (write_text (tmp_path f) (json_dumps data) w))"
    if "fst (write_text (tmp_path f) (json_dumps data) w) = Inl e" for e
    using that by (cases "write_text (tmp_path f) (json_dumps data) w")
      (simp add: write_result_file_def write_sync_def)
  show "write_result_file f data w =
        replace_file (tmp_path f) (result_path f) (snd (write_text (tmp_path f) (json_dumps data) w))"
    if "fst (write_text (tmp_path f) (json_dumps data) w) = Inr ()"
    using that by (cases "write_text (tmp_path f) (json_dumps data) w")
      (simp add: write_result_file_def write_sync_def)
  show "\<exists>bs. str_encode (json_dumps data) = Inr bs \<and>
             files w' (result_path f) = Some bs \<and>
             files w' (tmp_path f) = None \<and>
             oplog w' = oplog w @ [Write_text (tmp_path f), Replace_file (tmp_path f) (result_path f)]"
    if "write_result_file f data w = (Inr (), w')" for w'
    using that tmp_path_neq_result_path [of f]
    by (auto simp: write_result_file_def write_sync_def write_text_def replace_file_def Let_def
        split: sum.splits if_splits option.splits)
  show "files w' (result_path f) = files w (result_path f)"
    if "write_result_file f data w = (Inl e, w')" for e w'
    using write_result_file_failure [OF that] by simp
qed

lemma replicate_numeral: "replicate (numeral k) x = x # replicate (pred_numeral k) x"
  by (simp add: numeral_eq_Suc)

lemmas dumps_eval = json_dumps_def newline_indent_def encode_basestring_def escape_char_def
  int_repr_def digit_char_def digits_of_nat.simps replicate_numeral str_def

lemma example_dumps:
  \<open>json_dumps (PyDict [(str ''a'', PyList [PyInt 1, PyInt 20])]) =
   str ''{\<newline>  "a": [\<newline>    1,\<newline>    20\<newline>  ]\<newline>}''\<close>
  by (simp add: dumps_eval)

lemma example_encode:
  \<open>str_encode (str ''{\<newline>  "a": [\<newline>    1,\<newline>    20\<newline>  ]\<newline>}'') =
   Inr (bytes ''{\<newline>  "a": [\<newline>    1,\<newline>    20\<newline>  ]\<newline>}'')\<close>
  by (simp add: codec_eval str_def bytes_def)

theorem write_result_file_steps_witness:
  \<open>json_dumps (PyDict [(str ''a'', PyList [PyInt 1, PyInt 20])]) =
     str ''{\<newline>  "a": [\<newline>    1,\<newline>    20\<newline>  ]\<newline>}''
   \<and> fst (write_result_file server_py (PyDict [(str ''a'', PyList [PyInt 1, PyInt 20])])
            world_with_snapshot) = Inr ()
   \<and> files (snd (write_result_file server_py (PyDict [(str ''a'', PyList [PyInt 1, PyInt 20])])
                   world_with_snapshot)) (result_path server_py) =
       Some (bytes ''{\<newline>  "a": [\<newline>    1,\<newline>    20\<newline>  ]\<newline>}'')
   \<and> files (snd (write_result_file server_py (PyDict [(str ''a'', PyList [PyInt 1, PyInt 20])])
                   world_with_snapshot)) (tmp_path server_py) = None
   \<and> oplog (snd (write_result_file server_py (PyDict [(str ''a'', PyList [PyInt 1, PyInt 20])])
                   world_with_snapshot)) =
       [Write_text (tmp_path server_py), Replace_file (tmp_path server_py) (result_path server_py)]\<close>
proof -
  let ?data = \<open>PyDict [(str ''a'', PyList [PyInt 1, PyInt 20])]\<close>
  have io: "\<not> io_error world_with_snapshot (tmp_path server_py)"
    "\<not> io_error world_with_snapshot (result_path server_py)"
    by (simp_all add: world_with_snapshot_def)
  have enc: \<open>str_encode (json_dumps ?data) =
      Inr (bytes ''{\<newline>  "a": [\<newline>    1,\<newline>    20\<newline>  ]\<newline>}'')\<close>
    by (simp only: example_dumps example_encode)
  obtain w' where w: "write_result_file server_py ?data world_with_snapshot = (Inr (), w')"
    using write_result_file_ok [OF io enc] by blast
  have l: "oplog world_with_snapshot = []" by (simp add: world_with_snapshot_def)
  from write_result_file_steps [of server_py ?data world_with_snapshot] w
  have "\<exists>bs. str_encode (json_dumps ?data) = Inr bs \<and>
             files w' (result_path server_py) = Some bs \<and>
             files w' (tmp_path server_py) = None \<and>
             oplog w' = oplog world_with_snapshot @
               [Write_text (tmp_path server_py), Replace_file (tmp_path server_py) (result_path server_py)]"
    by blast
  then show ?thesis using w enc l example_dumps by auto
qed

section \<open>Writing a value and reading it back\<close>

subsection \<open>Numbers\<close>

lemma digits_simps [simp]: "digits []" "digits (d # ds) \<longleftrightarrow> d < 10 \<and> digits ds"
  "digits (xs @ ys) \<longleftrightarrow> digits xs \<and> digits ys"
  by (simp_all add: digits_def)

lemma is_digit_digit_char: "d < 10 \<Longrightarrow> is_digit (digit_char d)"
  by (simp add: is_digit_def digit_char_def)

lemma digit_val_digit_char [simp]: "digit_val (digit_char d) = d"
  by (simp add: digit_val_def digit_char_def)

lemma digit_val_comp_digit_char [simp]: "digit_val \<circ> digit_char = id"
  by (rule ext) simp

lemma map_digit_val_digit_char [simp]: "map digit_val (map digit_char ds) = ds"
  by simp

lemma takeWhile_digit_chars:
  "digits ds \<Longrightarrow> stops rest \<Longrightarrow> takeWhile is_digit (map digit_char ds @ rest) = map digit_char ds"
  by (induction ds) (auto simp: stops_def is_digit_digit_char split: list.splits)

lemma dropWhile_digit_chars:
  "digits ds \<Longrightarrow> stops rest \<Longrightarrow> dropWhile is_digit (map digit_char ds @ rest) = rest"
  by (induction ds) (auto simp: stops_def is_digit_digit_char split: list.splits)

lemma match_integer_digits:
  assumes "digits ip" "ip \<noteq> []" "hd ip = 0 \<longrightarrow> ip = [0]" "stops rest"
  shows "match_integer (map digit_char ip @ rest) = Some (ip, rest)"
proof (cases ip)
  case Nil
  with assms show ?thesis by simp
next
  case (Cons d ds)
  show ?thesis
  proof (cases "d = 0")
    case True
    with assms Cons show ?thesis by (simp add: match_integer_def digit_char_def)
  next
    case False
    have "digit_char d \<noteq> 48" using False by (simp add: digit_char_def)
    moreover have "is_digit (digit_char d)" using assms(1) Cons by (simp add: is_digit_digit_char)
    moreover have "takeWhile is_digit (map digit_char ip @ rest) = map digit_char ip"
      "dropWhile is_digit (map digit_char ip @ rest) = rest"
      using assms by (simp_all add: takeWhile_digit_chars dropWhile_digit_chars)
    ultimately show ?thesis unfolding Cons by (simp add: match_integer_def)
  qed
qed

lemma match_frac_none: "rest = [] \<or> hd rest \<noteq> 46 \<Longrightarrow> match_frac rest = None"
  by (auto simp: match_frac_def split: list.splits)

lemma match_frac_some:
  assumes "digits fs" "fs \<noteq> []" "stops rest"
  shows "match_frac (46 # map digit_char fs @ rest) = Some (fs, rest)"
proof -
  from assms obtain d ds where fs: "fs = d # ds" "d < 10" by (cases fs) auto
  have "takeWhile is_digit (map digit_char fs @ rest) = map digit_char fs"
    "dropWhile is_digit (map digit_char fs @ rest) = rest"
    using assms by (simp_all add: takeWhile_digit_chars dropWhile_digit_chars)
  then show ?thesis using fs by (simp add: match_frac_def is_digit_digit_char)
qed

lemma match_digits_text:
  assumes "digits es" "es \<noteq> []" "stops rest"
  shows "match_digits (map digit_char es @ rest) = Some (nat_of_digits es, rest)"
proof -
  from assms obtain d ds where es: "es = d # ds" "d < 10" by (cases es) auto
  have "takeWhile is_digit (map digit_char es @ rest) = map digit_char es"
    "dropWhile is_digit (map digit_char es @ rest) = rest"
    using assms by (simp_all add: takeWhile_digit_chars dropWhile_digit_chars)
  then show ?thesis using es by (simp add: match_digits_def is_digit_digit_char)
qed

lemma match_exp_none:
  "rest = [] \<or> (hd rest \<noteq> 101 \<and> hd rest \<noteq> 69) \<Longrightarrow> match_exp rest = None"
  by (auto simp: match_exp_def split: list.splits)

lemma match_exp_some:
  assumes "digits es" "es \<noteq> []" "stops rest"
  shows "match_exp (101 # (if eneg then 45 else 43) # map digit_char es @ rest) =
         Some (if eneg then - int (nat_of_digits es) else int (nat_of_digits es), rest)"
  using match_digits_text [OF assms] by (simp add: match_exp_def)

lemma stops_simps [simp]: "stops []" "stops (c # cs) \<longleftrightarrow> \<not> is_digit c"
  by (simp_all add: stops_def)

lemma delimited_stops: "delimited rest \<Longrightarrow> stops rest"
  by (auto simp: delimited_def stops_def is_digit_def split: list.splits)

lemma delimited_hd:
  "delimited rest \<Longrightarrow> rest = [] \<or> hd rest \<noteq> 46"
  "delimited rest \<Longrightarrow> rest = [] \<or> (hd rest \<noteq> 101 \<and> hd rest \<noteq> 69)"
  by (auto simp: delimited_def split: list.splits)

lemma match_number_integer_part:
  assumes "digits ip" "ip \<noteq> []" "hd ip = 0 \<longrightarrow> ip = [0]" "stops tail"
  shows "match_number (sign_text neg @ map digit_char ip @ tail) =
         (let fr = match_frac tail;
              s3 = (case fr of None \<Rightarrow> tail | Some (_, t) \<Rightarrow> t);
              ex = match_exp s3;
              s4 = (case ex of None \<Rightarrow> s3 | Some (_, t) \<Rightarrow> t)
          in if fr = None \<and> ex = None
             then Some (PyInt (if neg then - int (nat_of_digits ip) else int (nat_of_digits ip)), s4)
             else Some (PyFloat (float_of_literal neg ip
                            (case fr of None \<Rightarrow> [] | Some (fp, _) \<Rightarrow> fp)
                            (case ex of None \<Rightarrow> 0 | Some (e, _) \<Rightarrow> e)), s4))"
proof -
  let ?body = "map digit_char ip @ tail"
  have hd_body: "hd ?body \<noteq> 45" "?body \<noteq> []"
    using assms(1,2) by (cases ip; simp add: digit_char_def)+
  have neg: "(case sign_text neg @ ?body of [] \<Rightarrow> False | c # _ \<Rightarrow> c = 45) = neg"
    using hd_body by (cases ?body) (auto simp: sign_text_def)
  have s1: "(if neg then tl (sign_text neg @ ?body) else sign_text neg @ ?body) = ?body"
    by (simp add: sign_text_def)
  have mi: "match_integer ?body = Some (ip, tail)"
    using assms by (rule match_integer_digits)
  show ?thesis
    unfolding match_number_def neg s1 Let_def mi by simp
qed

lemma match_number_int:
  assumes "digits ip" "ip \<noteq> []" "hd ip = 0 \<longrightarrow> ip = [0]" "delimited rest"
  shows "match_number (sign_text neg @ map digit_char ip @ rest) =
         Some (PyInt (if neg then - int (nat_of_digits ip) else int (nat_of_digits ip)), rest)"
  using delimited_hd [OF assms(4)]
  by (simp add: match_number_integer_part [OF assms(1-3) delimited_stops [OF assms(4)]]
      match_frac_none match_exp_none)

lemma match_number_frac:
  assumes "digits ip" "ip \<noteq> []" "hd ip = 0 \<longrightarrow> ip = [0]" "digits fs" "fs \<noteq> []"
    "delimited rest"
  shows "match_number (sign_text neg @ map digit_char ip @ 46 # map digit_char fs @ rest) =
         Some (PyFloat (float_of_literal neg ip fs 0), rest)"
proof -
  have st: "stops (46 # map digit_char fs @ rest)" by (simp add: is_digit_def)
  have mf: "match_frac (46 # map digit_char fs @ rest) = Some (fs, rest)"
    using assms(4,5) delimited_stops [OF assms(6)] by (rule match_frac_some)
  have me: "match_exp rest = None" using delimited_hd(2) [OF assms(6)] by (rule match_exp_none)
  show ?thesis
    by (simp add: match_number_integer_part [OF assms(1-3) st] mf me)
qed

lemma match_number_exp:
  assumes "digits ip" "ip \<noteq> []" "hd ip = 0 \<longrightarrow> ip = [0]" "digits es" "es \<noteq> []"
    "delimited rest"
  shows "match_number (sign_text neg @ map digit_char ip @
            101 # (if eneg then 45 else 43) # map digit_char es @ rest) =
         Some (PyFloat (float_of_literal neg ip []
                  (if eneg then - int (nat_of_digits es) else int (nat_of_digits es))), rest)"
proof -
  let ?tail = "101 # (if eneg then 45 else 43) # map digit_char es @ rest"
  have st: "stops ?tail" by (simp add: is_digit_def)
  have mf: "match_frac ?tail = None" by (rule match_frac_none) simp
  have me: "match_exp ?tail =
            Some (if eneg then - int (nat_of_digits es) else int (nat_of_digits es), rest)"
    using assms(4,5) delimited_stops [OF assms(6)] by (rule match_exp_some)
  show ?thesis
    by (simp only: match_number_integer_part [OF assms(1-3) st] mf me Let_def option.case
        prod.case simp_thms if_False option.distinct)
qed

lemma match_number_frac_exp:
  assumes "digits ip" "ip \<noteq> []" "hd ip = 0 \<longrightarrow> ip = [0]" "digits fs" "fs \<noteq> []"
    "digits es" "es \<noteq> []" "delimited rest"
  shows "match_number (sign_text neg @ map digit_char ip @ 46 # map digit_char fs @
            101 # (if eneg then 45 else 43) # map digit_char es @ rest) =
         Some (PyFloat (float_of_literal neg ip fs
                  (if eneg then - int (nat_of_digits es) else int (nat_of_digits es))), rest)"
proof -
  let ?etail = "101 # (if eneg then 45 else 43) # map digit_char es @ rest"
  have st: "stops (46 # map digit_char fs @ ?etail)" by (simp add: is_digit_def)
  have ste: "stops ?etail" by (simp add: is_digit_def)
  have mf: "match_frac (46 # map digit_char fs @ ?etail) = Some (fs, ?etail)"
    using assms(4,5) ste by (rule match_frac_some)
  have me: "match_exp ?etail =
            Some (if eneg then - int (nat_of_digits es) else int (nat_of_digits es), rest)"
    using assms(6,7) delimited_stops [OF assms(8)] by (rule match_exp_some)
  show ?thesis
    by (simp only: match_number_integer_part [OF assms(1-3) st] mf me Let_def option.case
        prod.case simp_thms if_False option.distinct)
qed

lemma digits_of_nat_small: "n < 10 \<Longrightarrow> digits_of_nat n = [n]"
  by (simp add: digits_of_nat.simps)

lemma digits_of_nat_large: "\<not> n < 10 \<Longrightarrow> digits_of_nat n = digits_of_nat (n div 10) @ [n mod 10]"
  by (subst digits_of_nat.simps) simp

lemma digits_of_nat_nonempty [simp]: "digits_of_nat n \<noteq> []"
  by (cases "n < 10") (simp_all add: digits_of_nat_small digits_of_nat_large)

lemma digits_digits_of_nat [simp]: "digits (digits_of_nat n)"
proof (induction n rule: digits_of_nat.induct)
  case (1 n)
  then show ?case
    by (cases "n < 10") (simp_all add: digits_of_nat_small digits_of_nat_large)
qed

lemma hd_digits_of_nat: "hd (digits_of_nat n) = 0 \<longleftrightarrow> n = 0"
proof (induction n rule: digits_of_nat.induct)
  case (1 n)
  show ?case
  proof (cases "n < 10")
    case True
    then show ?thesis by (simp add: digits_of_nat_small)
  next
    case False
    then have "n div 10 \<noteq> 0" by simp
    with 1 False show ?thesis by (simp add: digits_of_nat_large)
  qed
qed

lemma nat_of_digits_snoc: "nat_of_digits (ds @ [d]) = 10 * nat_of_digits ds + d"
  by (simp add: nat_of_digits_def)

lemma nat_of_digits_digits_of_nat [simp]: "nat_of_digits (digits_of_nat n) = n"
proof (induction n rule: digits_of_nat.induct)
  case (1 n)
  show ?case
  proof (cases "n < 10")
    case True
    then show ?thesis by (simp add: digits_of_nat_small nat_of_digits_def)
  next
    case False
    with 1 show ?thesis by (simp add: digits_of_nat_large nat_of_digits_snoc)
  qed
qed

lemma nat_of_digits_leading_zero: "nat_of_digits (0 # ds) = nat_of_digits ds"
  by (simp add: nat_of_digits_def)

lemma hd_digits_of_nat_zero: "hd (digits_of_nat n) = 0 \<longrightarrow> digits_of_nat n = [0]"
  by (simp add: hd_digits_of_nat digits_of_nat_small)

lemma int_repr_text:
  "int_repr i = sign_text (i < 0) @ map digit_char (digits_of_nat (nat \<bar>i\<bar>))"
  by (simp add: int_repr_def sign_text_def)

lemma match_number_int_repr:
  assumes "delimited rest"
  shows "match_number (int_repr i @ rest) = Some (PyInt i, rest)"
proof -
  have "match_number (sign_text (i < 0) @ map digit_char (digits_of_nat (nat \<bar>i\<bar>)) @ rest) =
        Some (PyInt (if i < 0 then - int (nat_of_digits (digits_of_nat (nat \<bar>i\<bar>)))
                     else int (nat_of_digits (digits_of_nat (nat \<bar>i\<bar>)))), rest)"
    by (rule match_number_int [OF digits_digits_of_nat digits_of_nat_nonempty
          hd_digits_of_nat_zero assms])
  then show ?thesis by (simp add: int_repr_text)
qed

subsection \<open>Floats\<close>

text \<open>\<open>float_of_literal\<close> on the forms that \<open>float_repr\<close> writes.\<close>

lemma takeWhile_zero_hd: "ds \<noteq> [] \<Longrightarrow> hd ds \<noteq> (0::nat) \<Longrightarrow> takeWhile (\<lambda>d. d = 0) ds = []"
  by (cases ds) simp_all

lemma dropWhile_zero_hd: "ds \<noteq> [] \<Longrightarrow> hd ds \<noteq> (0::nat) \<Longrightarrow> dropWhile (\<lambda>d. d = 0) ds = ds"
  by (cases ds) simp_all

lemma dropWhile_zeros: "dropWhile (\<lambda>d. d = 0) (replicate z (0::nat) @ xs) = dropWhile (\<lambda>d. d = 0) xs"
  by (induction z) simp_all

lemma takeWhile_zeros:
  "takeWhile (\<lambda>d. d = 0) (replicate z (0::nat) @ xs) = replicate z 0 @ takeWhile (\<lambda>d. d = 0) xs"
  by (induction z) simp_all

lemma strip_trailing_zeros:
  assumes "ds \<noteq> []" "last ds \<noteq> (0::nat)"
  shows "rev (dropWhile (\<lambda>d. d = 0) (rev (ds @ replicate z 0))) = ds"
proof -
  have "rev (ds @ replicate z 0) = replicate z 0 @ rev ds" by simp
  moreover have "dropWhile (\<lambda>d. d = 0) (replicate z 0 @ rev ds) = rev ds"
  proof -
    have "dropWhile (\<lambda>d. d = 0) (replicate z 0 @ rev ds) = dropWhile (\<lambda>d. d = 0) (rev ds)"
      by (rule dropWhile_zeros)
    also have "\<dots> = rev ds"
      using assms by (intro dropWhile_zero_hd) (simp_all add: hd_rev)
    finally show ?thesis .
  qed
  ultimately show ?thesis by simp
qed

lemma float_of_literal_split:
  assumes "ds \<noteq> []" "hd ds \<noteq> 0" "last ds \<noteq> 0" "k \<le> length ds"
  shows "float_of_literal neg (take k ds) (drop k ds) e = Finite neg ds (int k + e)"
proof -
  have a: "take k ds @ drop k ds = ds" by simp
  have t: "takeWhile (\<lambda>d. d = 0) ds = []" using assms(1,2) by (rule takeWhile_zero_hd)
  have d: "dropWhile (\<lambda>d. d = 0) ds = ds" using assms(1,2) by (rule dropWhile_zero_hd)
  have r: "rev (dropWhile (\<lambda>d. d = 0) (rev ds)) = ds"
    using strip_trailing_zeros [OF assms(1,3), of 0] by simp
  show ?thesis
    unfolding float_of_literal_def Let_def a t d r using assms(1,4) by simp
qed

lemma float_of_literal_small:
  assumes "ds \<noteq> []" "hd ds \<noteq> 0" "last ds \<noteq> 0"
  shows "float_of_literal neg [0] (replicate z 0 @ ds) 0 = Finite neg ds (- int z)"
proof -
  have a: "[0] @ replicate z 0 @ ds = replicate (Suc z) 0 @ ds" by simp
  have t: "takeWhile (\<lambda>d. d = 0) (replicate (Suc z) 0 @ ds) = replicate (Suc z) 0"
    unfolding takeWhile_zeros using takeWhile_zero_hd [OF assms(1,2)] by simp
  have d: "dropWhile (\<lambda>d. d = 0) (replicate (Suc z) 0 @ ds) = ds"
    unfolding dropWhile_zeros using assms(1,2) by (rule dropWhile_zero_hd)
  have r: "rev (dropWhile (\<lambda>d. d = 0) (rev ds)) = ds"
    using strip_trailing_zeros [OF assms(1,3), of 0] by simp
  show ?thesis
    unfolding float_of_literal_def Let_def a t d r using assms(1) by simp
qed

lemma float_of_literal_integral:
  assumes "ds \<noteq> []" "hd ds \<noteq> 0" "last ds \<noteq> 0"
  shows "float_of_literal neg (ds @ replicate z 0) [0] 0 = Finite neg ds (int (length ds) + int z)"
proof -
  have e: "(ds @ replicate z 0) @ [0] = ds @ replicate (Suc z) 0"
    by (simp add: replicate_append_same)
  have h: "ds @ replicate (Suc z) 0 \<noteq> []" "hd (ds @ replicate (Suc z) 0) \<noteq> 0"
    using assms by simp_all
  have t: "takeWhile (\<lambda>d. d = 0) (ds @ replicate (Suc z) 0) = []"
    using h by (rule takeWhile_zero_hd)
  have d: "dropWhile (\<lambda>d. d = 0) (ds @ replicate (Suc z) 0) = ds @ replicate (Suc z) 0"
    using h by (rule dropWhile_zero_hd)
  have r: "rev (dropWhile (\<lambda>d. d = 0) (rev (ds @ replicate (Suc z) 0))) = ds"
    using assms(1,3) by (rule strip_trailing_zeros)
  show ?thesis
    unfolding float_of_literal_def Let_def e t d r using assms(1) by simp
qed

lemma float_of_literal_zero: "float_of_literal neg [0] [0] 0 = Finite neg [0] 1"
  by (simp add: float_of_literal_def)

lemma canonical_digitsD:
  assumes "canonical_digits ds p"
  shows "ds \<noteq> []" "digits ds" "ds = [0] \<Longrightarrow> p = 1"
    "ds \<noteq> [0] \<Longrightarrow> hd ds \<noteq> 0 \<and> last ds \<noteq> 0"
  using assms by (auto simp: canonical_digits_def digits_def split: if_splits)

lemma digit_char_zero: "digit_char 0 = 48"
  by (simp add: digit_char_def)

lemma digits_replicate_zero [simp]: "digits (replicate z 0)"
  by (simp add: digits_def list_all_iff)

lemma exponent_digits:
  fixes e :: int
  shows "\<exists>es. (if length (map digit_char (digits_of_nat (nat \<bar>e\<bar>))) < 2
               then 48 # map digit_char (digits_of_nat (nat \<bar>e\<bar>))
               else map digit_char (digits_of_nat (nat \<bar>e\<bar>))) = map digit_char es \<and>
              digits es \<and> es \<noteq> [] \<and>
              (if e < 0 then - int (nat_of_digits es) else int (nat_of_digits es)) = e"
proof -
  define ed where "ed = digits_of_nat (nat \<bar>e\<bar>)"
  define es where "es = (if length ed < 2 then 0 # ed else ed)"
  have "(if length (map digit_char ed) < 2 then 48 # map digit_char ed else map digit_char ed) =
        map digit_char es"
    by (simp add: es_def digit_char_zero)
  moreover have "digits es" by (simp add: es_def ed_def)
  moreover have "es \<noteq> []" by (simp add: es_def ed_def)
  moreover have "nat_of_digits es = nat \<bar>e\<bar>"
    by (simp add: es_def ed_def nat_of_digits_leading_zero)
  then have "(if e < 0 then - int (nat_of_digits es) else int (nat_of_digits es)) = e"
    by simp
  ultimately show ?thesis unfolding ed_def by blast
qed

lemma match_number_float_repr:
  assumes "canonical_digits ds p" "delimited rest"
  shows "match_number (float_repr neg ds p @ rest) = Some (PyFloat (Finite neg ds p), rest)"
proof -
  note c = canonical_digitsD [OF assms(1)]
  consider (exp) "p \<le> - 4 \<or> 16 < p" | (small) "- 4 < p" "p \<le> 0"
    | (integral) "0 < p" "p \<le> 16" "int (length ds) \<le> p"
    | (plain) "0 < p" "p \<le> 16" "p < int (length ds)"
    by linarith
  then show ?thesis
  proof cases
    case exp
    then have nz: "ds \<noteq> [0]" using c(3) by auto
    from c(4) [OF nz] have h: "hd ds \<noteq> 0" "last ds \<noteq> 0" by simp_all
    obtain d r where ds: "ds = d # r" using c(1) by (cases ds) auto
    obtain es where x:
      "(if length (map digit_char (digits_of_nat (nat \<bar>p - 1\<bar>))) < 2
        then 48 # map digit_char (digits_of_nat (nat \<bar>p - 1\<bar>))
        else map digit_char (digits_of_nat (nat \<bar>p - 1\<bar>))) = map digit_char es"
      "digits es" "es \<noteq> []"
      "(if p - 1 < 0 then - int (nat_of_digits es) else int (nat_of_digits es)) = p - 1"
      using exponent_digits [of "p - 1"] by blast
    have d: "digits [d]" "[d] \<noteq> []" "hd [d] = 0 \<longrightarrow> [d] = [0]" "digits r"
      using c(2) ds by simp_all
    have v: "float_of_literal neg [d] r (p - 1) = Finite neg ds p"
      using float_of_literal_split [OF c(1) h, of 1 neg "p - 1"] ds by simp
    have "float_repr neg ds p =
          (if neg then [45] else []) @
          (case map digit_char ds of [] \<Rightarrow> [] | d # r \<Rightarrow> if r = [] then [d] else d # 46 # r) @
          [101] @ (if p - 1 < 0 then [45] else [43]) @
          (if length (map digit_char (digits_of_nat (nat \<bar>p - 1\<bar>))) < 2
           then 48 # map digit_char (digits_of_nat (nat \<bar>p - 1\<bar>))
           else map digit_char (digits_of_nat (nat \<bar>p - 1\<bar>)))"
      by (simp only: float_repr_def Let_def exp if_True)
    then have t: "float_repr neg ds p =
          sign_text neg @
          (case map digit_char ds of [] \<Rightarrow> [] | d # r \<Rightarrow> if r = [] then [d] else d # 46 # r) @
          [101] @ (if p - 1 < 0 then [45] else [43]) @ map digit_char es"
      by (simp only: x(1) sign_text_def)
    show ?thesis
    proof (cases "r = []")
      case True
      have tt: "float_repr neg ds p @ rest =
            sign_text neg @ map digit_char [d] @
            101 # (if p - 1 < 0 then 45 else 43) # map digit_char es @ rest"
        unfolding t using True by (simp add: ds)
      have "match_number (sign_text neg @ map digit_char [d] @
              101 # (if p - 1 < 0 then 45 else 43) # map digit_char es @ rest) =
            Some (PyFloat (float_of_literal neg [d] [] (p - 1)), rest)"
        using match_number_exp [OF d(1-3) x(2,3) assms(2), of neg "p - 1 < 0"]
        by (simp only: x(4))
      then show ?thesis using v True by (simp only: tt)
    next
      case False
      have tt: "float_repr neg ds p @ rest =
            sign_text neg @ map digit_char [d] @ 46 # map digit_char r @
            101 # (if p - 1 < 0 then 45 else 43) # map digit_char es @ rest"
        unfolding t using False by (simp add: ds)
      have "match_number (sign_text neg @ map digit_char [d] @ 46 # map digit_char r @
              101 # (if p - 1 < 0 then 45 else 43) # map digit_char es @ rest) =
            Some (PyFloat (float_of_literal neg [d] r (p - 1)), rest)"
        using match_number_frac_exp [OF d(1-3) d(4) False x(2,3) assms(2), of neg "p - 1 < 0"]
        by (simp only: x(4))
      then show ?thesis using v by (simp only: tt)
    qed
  next
    case small
    then have nz: "ds \<noteq> [0]" using c(3) by auto
    from c(4) [OF nz] have h: "hd ds \<noteq> 0" "last ds \<noteq> 0" by simp_all
    define z where "z = nat (- p)"
    have t: "float_repr neg ds p @ rest =
          sign_text neg @ map digit_char [0] @ 46 # map digit_char (replicate z 0 @ ds) @ rest"
      using small by (simp add: float_repr_def sign_text_def Let_def z_def digit_char_zero)
    have f: "digits (replicate z 0 @ ds)" "replicate z 0 @ ds \<noteq> []"
      using c(1,2) by simp_all
    have v: "float_of_literal neg [0] (replicate z 0 @ ds) 0 = Finite neg ds p"
      using float_of_literal_small [OF c(1) h, of neg z] small by (simp add: z_def)
    have i: "digits [0]" "[0::nat] \<noteq> []" "hd [0::nat] = 0 \<longrightarrow> [0::nat] = [0]" by simp_all
    show ?thesis
      unfolding t using match_number_frac [OF i f assms(2), of neg] v by simp
  next
    case integral
    define z where "z = nat p - length ds"
    have t: "float_repr neg ds p @ rest =
          sign_text neg @ map digit_char (ds @ replicate z 0) @ 46 # map digit_char [0] @ rest"
      using integral by (simp add: float_repr_def sign_text_def Let_def z_def digit_char_zero)
    have i: "digits (ds @ replicate z 0)" "ds @ replicate z 0 \<noteq> []"
      using c(1,2) by simp_all
    have f: "digits [0]" "[0::nat] \<noteq> []" by simp_all
    show ?thesis
    proof (cases "ds = [0]")
      case True
      with c(3) have p: "p = 1" by simp
      with True have z: "z = 0" by (simp add: z_def)
      have i3: "hd (ds @ replicate z 0) = 0 \<longrightarrow> ds @ replicate z 0 = [0]"
        using True z by simp
      have v: "float_of_literal neg (ds @ replicate z 0) [0] 0 = Finite neg ds p"
        using True z p by (simp add: float_of_literal_zero)
      show ?thesis
        unfolding t using match_number_frac [OF i i3 f assms(2), of neg] v by simp
    next
      case False
      from c(4) [OF False] have h: "hd ds \<noteq> 0" "last ds \<noteq> 0" by simp_all
      have i3: "hd (ds @ replicate z 0) = 0 \<longrightarrow> ds @ replicate z 0 = [0]"
        using h c(1) by simp
      have v: "float_of_literal neg (ds @ replicate z 0) [0] 0 = Finite neg ds p"
        using float_of_literal_integral [OF c(1) h, of neg z] integral by (simp add: z_def)
      show ?thesis
        unfolding t using match_number_frac [OF i i3 f assms(2), of neg] v by simp
    qed
  next
    case plain
    define k where "k = nat p"
    have k: "0 < k" "k < length ds" using plain by (simp_all add: k_def)
    then have nz: "ds \<noteq> [0]" by auto
    from c(4) [OF nz] have h: "hd ds \<noteq> 0" "last ds \<noteq> 0" by simp_all
    have t: "float_repr neg ds p @ rest =
          sign_text neg @ map digit_char (take k ds) @ 46 # map digit_char (drop k ds) @ rest"
      using plain by (simp add: float_repr_def sign_text_def Let_def k_def take_map drop_map)
    have i: "digits (take k ds)" "take k ds \<noteq> []" "hd (take k ds) = 0 \<longrightarrow> take k ds = [0]"
      using c(1,2) k h by (auto simp: digits_def list_all_iff dest: in_set_takeD)
    have f: "digits (drop k ds)" "drop k ds \<noteq> []"
      using c(2) k by (auto simp: digits_def list_all_iff dest: in_set_dropD)
    have v: "float_of_literal neg (take k ds) (drop k ds) 0 = Finite neg ds p"
      using float_of_literal_split [OF c(1) h, of k neg 0] k plain by (simp add: k_def)
    show ?thesis
      unfolding t using match_number_frac [OF i f assms(2), of neg] v by simp
  qed
qed

subsection \<open>Strings\<close>

lemma hex_val_hex_digit: "d < 16 \<Longrightarrow> hex_val (hex_digit d) = Some d"
  by (auto simp: hex_val_def hex_digit_def)

lemma decode_control_escape:
  assumes "c < 32"
  shows "decode_uXXXX (48 # 48 # hex_digit (c div 16) # hex_digit (c mod 16) # tail) = Some c"
proof -
  have "c div 16 < 16" "c mod 16 < 16" using assms by simp_all
  then have "hex_val (hex_digit (c div 16)) = Some (c div 16)"
    "hex_val (hex_digit (c mod 16)) = Some (c mod 16)"
    by (simp_all add: hex_val_hex_digit)
  moreover have "hex_val 48 = Some 0" by (simp add: hex_val_def)
  ultimately show ?thesis by (simp add: decode_uXXXX_def)
qed

lemma scanstring_escape_char:
  "scanstring (escape_char c @ tail) =
   (case scanstring tail of Inl e \<Rightarrow> Inl e | Inr (t, r) \<Rightarrow> Inr (c # t, r))"
proof -
  consider "c = 34" | "c = 92" | "c = 8" | "c = 12" | "c = 10" | "c = 13" | "c = 9"
    | "c < 32" "c \<noteq> 8" "c \<noteq> 12" "c \<noteq> 10" "c \<noteq> 13" "c \<noteq> 9"
    | "32 \<le> c" "c \<noteq> 34" "c \<noteq> 92"
    by linarith
  then show ?thesis
  proof cases
    case 8
    have e: "escape_char c = [92, 117, 48, 48, hex_digit (c div 16), hex_digit (c mod 16)]"
      using 8 by (simp add: escape_char_def)
    have s: "scan_escape 117 (48 # 48 # hex_digit (c div 16) # hex_digit (c mod 16) # tail) =
             Inr (c, 4)"
      using 8(1) by (simp add: scan_escape_def decode_control_escape)
    show ?thesis unfolding e by (simp add: s)
  next
    case 9
    then show ?thesis by (simp add: escape_char_def)
  qed (auto simp: escape_char_def scan_escape_def backslash_def)
qed

lemma scanstring_escaped:
  "scanstring (concat (map escape_char s) @ 34 # rest) = Inr (s, rest)"
  by (induction s) (simp_all add: scanstring_escape_char)

lemma scanstring_basestring:
  "scanstring (tl (encode_basestring s) @ rest) = Inr (s, rest)"
  using scanstring_escaped [of s rest] by (simp add: encode_basestring_def)

subsection \<open>Values\<close>

lemma skip_ws_start: "\<not> is_ws c \<Longrightarrow> skip_ws (c # t) = c # t"
  by (simp add: skip_ws_def)

lemma skip_ws_newline_indent: "skip_ws (newline_indent l @ s) = skip_ws s"
proof -
  have "dropWhile is_ws (replicate k 32 @ s) = dropWhile is_ws s" for k
    by (induction k) (simp_all add: is_ws_def)
  then show ?thesis by (simp add: skip_ws_def newline_indent_def is_ws_def)
qed

lemma delimited_simps [simp]:
  "delimited []" "delimited (44 # s)" "delimited (newline_indent l @ s)"
  by (simp_all add: delimited_def newline_indent_def)

lemma hd_digit_char_text:
  assumes "ds \<noteq> []" "digits ds"
  shows "\<exists>c t. map digit_char ds = c # t \<and> 48 \<le> c \<and> c \<le> 57"
  using assms by (cases ds) (auto simp: digit_char_def)

lemma int_repr_start: "\<exists>c t. int_repr i = c # t \<and> (c = 45 \<or> (48 \<le> c \<and> c \<le> 57))"
proof (cases "i < 0")
  case True
  then show ?thesis by (simp add: int_repr_def)
next
  case False
  from hd_digit_char_text [OF digits_of_nat_nonempty digits_digits_of_nat, of "nat i"]
  obtain c t where "map digit_char (digits_of_nat (nat i)) = c # t" "48 \<le> c" "c \<le> 57"
    by auto
  with False show ?thesis by (simp add: int_repr_def)
qed

lemma float_repr_start:
  assumes "canonical_digits ds p"
  shows "\<exists>c t. float_repr neg ds p = c # t \<and> (c = 45 \<or> (48 \<le> c \<and> c \<le> 57))"
proof (cases neg)
  case True
  then show ?thesis by (simp add: float_repr_def Let_def)
next
  case False
  note c = canonical_digitsD [OF assms]
  obtain d r where ds: "ds = d # r" "d < 10" using c(1,2) by (cases ds) auto
  have d: "48 \<le> digit_char d" "digit_char d \<le> 57" using ds(2) by (simp_all add: digit_char_def)
  consider (exp) "p \<le> - 4 \<or> 16 < p" | (small) "- 4 < p" "p \<le> 0"
    | (integral) "0 < p" "p \<le> 16" "int (length ds) \<le> p"
    | (plain) "0 < p" "p \<le> 16" "p < int (length ds)"
    by linarith
  then show ?thesis
  proof cases
    case exp
    have "float_repr neg ds p =
          (if neg then [45] else []) @
          (case map digit_char ds of [] \<Rightarrow> [] | d # r \<Rightarrow> if r = [] then [d] else d # 46 # r) @
          [101] @ (if p - 1 < 0 then [45] else [43]) @
          (if length (map digit_char (digits_of_nat (nat \<bar>p - 1\<bar>))) < 2
           then 48 # map digit_char (digits_of_nat (nat \<bar>p - 1\<bar>))
           else map digit_char (digits_of_nat (nat \<bar>p - 1\<bar>)))"
      by (simp only: float_repr_def Let_def exp if_True)
    then show ?thesis using False d by (auto simp: ds)
  next
    case small
    then show ?thesis using False by (simp add: float_repr_def Let_def)
  next
    case integral
    then show ?thesis using False d by (simp add: float_repr_def Let_def ds)
  next
    case plain
    then have "0 < nat p" by simp
    then obtain k where k: "nat p = Suc k" by (cases "nat p") auto
    from plain show ?thesis using False d by (simp add: float_repr_def Let_def ds k)
  qed
qed

lemma value_start_not_ws: "value_start c \<Longrightarrow> \<not> is_ws c"
  by (auto simp: value_start_def is_ws_def)

lemma iterencode_start:
  assumes "valid_json v"
  shows "\<exists>c t. iterencode level v = c # t \<and> value_start c"
proof (cases v)
  case (PyInt i)
  then show ?thesis using int_repr_start [of i] by (auto simp: value_start_def)
next
  case (PyFloat f)
  with assms obtain neg ds p where f: "f = Finite neg ds p" "canonical_digits ds p"
    by (cases f) auto
  then show ?thesis using PyFloat float_repr_start [OF f(2), of neg]
    by (auto simp: value_start_def floatstr_def)
qed (auto simp: value_start_def str_def encode_basestring_def newline_indent_def)

lemma iterencode_list_start:
  assumes "valid_json_list vs" "vs \<noteq> []"
  shows "\<exists>c t. iterencode_list level vs = c # t \<and> value_start c"
proof -
  from assms obtain v r where vs: "vs = v # r" "valid_json v" by (cases vs) auto
  from iterencode_start [OF vs(2), of level] show ?thesis by (auto simp: vs(1))
qed

lemma iterencode_dict_start:
  assumes "dct \<noteq> []"
  shows "\<exists>t. iterencode_dict level dct = 34 # t"
proof -
  from assms obtain k v r where "dct = (k, v) # r" by (cases dct) auto
  then show ?thesis by (auto simp: encode_basestring_def)
qed

lemma dict_setitem_new: "k \<notin> fst ` set d \<Longrightarrow> dict_setitem d k v = d @ [(k, v)]"
  by (induction d) auto

lemma dict_of_pairs_distinct:
  assumes "distinct (map fst pairs)"
  shows "dict_of_pairs pairs = pairs"
proof -
  have "distinct (map fst (d @ ps)) \<Longrightarrow>
        foldl (\<lambda>d (k, v). dict_setitem d k v) d ps = d @ ps" for d ps
  proof (induction ps arbitrary: d)
    case Nil
    then show ?case by simp
  next
    case (Cons kv ps)
    obtain k v where kv: "kv = (k, v)" by (cases kv)
    from Cons.prems have "k \<notin> fst ` set d" by (auto simp: kv)
    then have "dict_setitem d k v = d @ [(k, v)]" by (rule dict_setitem_new)
    moreover have "distinct (map fst ((d @ [(k, v)]) @ ps))" using Cons.prems by (simp add: kv)
    ultimately show ?case using Cons.IH [of "d @ [(k, v)]"] by (simp add: kv)
  qed
  from this [of "[]" pairs] assms show ?thesis by (simp add: dict_of_pairs_def)
qed

lemma valid_json_list_member: "valid_json_list vs \<Longrightarrow> v \<in> set vs \<Longrightarrow> valid_json v"
  by (induction vs) auto

lemma scan_once_number:
  assumes "match_number (c # t) = Some res" "c = 45 \<or> (48 \<le> c \<and> c \<le> 57)"
  shows "scan_once (Suc n) (c # t) = Inr res"
  using assms by (auto simp: str_def)

lemma JSONArray_items:
  assumes elem: "\<And>v level n rest. v \<in> set vs \<Longrightarrow> valid_json v \<Longrightarrow> calls_of v \<le> n \<Longrightarrow>
            delimited rest \<Longrightarrow> scan_once n (iterencode level v @ rest) = Inr (v, rest)"
    and "vs \<noteq> []" "valid_json_list vs" "calls_of_list vs \<le> n"
  shows "JSONArray n (iterencode_list level vs @ newline_indent l @ 93 # rest) = Inr (vs, rest)"
  using assms
proof (induction vs arbitrary: n)
  case Nil
  then show ?case by simp
next
  case (Cons v vs)
  from Cons.prems(4) obtain m where n: "n = Suc m" and m: "calls_of v \<le> m" "calls_of_list vs \<le> m"
    by (cases n) auto
  have v: "valid_json v" "valid_json_list vs" using Cons.prems(3) by simp_all
  show ?case
  proof (cases "vs = []")
    case True
    have "scan_once m (iterencode level v @ newline_indent l @ 93 # rest) =
          Inr (v, newline_indent l @ 93 # rest)"
      by (rule Cons.prems(1)) (simp_all add: v m)
    then show ?thesis
      by (simp add: n True skip_ws_newline_indent skip_ws_start is_ws_def)
  next
    case False
    let ?tail = "44 # newline_indent level @ iterencode_list level vs @ newline_indent l @ 93 # rest"
    have s: "scan_once m (iterencode level v @ ?tail) = Inr (v, ?tail)"
      by (rule Cons.prems(1)) (simp_all add: v m)
    obtain c t where c: "iterencode_list level vs = c # t" "\<not> is_ws c"
      using iterencode_list_start [OF v(2) False, of level] value_start_not_ws by blast
    have w: "skip_ws (newline_indent level @ iterencode_list level vs @ newline_indent l @ 93 # rest) =
             iterencode_list level vs @ newline_indent l @ 93 # rest"
      unfolding skip_ws_newline_indent using c by (simp add: skip_ws_start)
    have "JSONArray m (iterencode_list level vs @ newline_indent l @ 93 # rest) = Inr (vs, rest)"
    proof (rule Cons.IH)
      show "scan_once n' (iterencode level' v' @ rest') = Inr (v', rest')"
        if "v' \<in> set vs" "valid_json v'" "calls_of v' \<le> n'" "delimited rest'"
        for v' level' n' rest'
        using that by (intro Cons.prems(1) [of v']) simp_all
    qed (use False v(2) m(2) in simp_all)
    then show ?thesis
      using False s by (simp add: n w skip_ws_start is_ws_def)
  qed
qed

lemma JSONObject_items:
  assumes elem: "\<And>k v level n rest. (k, v) \<in> set dct \<Longrightarrow> valid_json v \<Longrightarrow> calls_of v \<le> n \<Longrightarrow>
            delimited rest \<Longrightarrow> scan_once n (iterencode level v @ rest) = Inr (v, rest)"
    and "dct \<noteq> []" "valid_json_items dct" "calls_of_items dct \<le> n"
  shows "JSONObject n (iterencode_dict level dct @ newline_indent l @ 125 # rest) = Inr (dct, rest)"
  using assms
proof (induction dct arbitrary: n)
  case Nil
  then show ?case by simp
next
  case (Cons kv dct)
  obtain k v where kv: "kv = (k, v)" by (cases kv)
  from Cons.prems(4) obtain m where n: "n = Suc m" and m: "calls_of v \<le> m" "calls_of_items dct \<le> m"
    by (cases n) (auto simp: kv)
  have v: "valid_json v" "valid_json_items dct" using Cons.prems(3) by (simp_all add: kv)
  obtain c t where c: "iterencode level v = c # t" "\<not> is_ws c"
    using iterencode_start [OF v(1), of level] value_start_not_ws by blast
  have key: "scanstring (concat (map escape_char k) @ 34 # 58 # 32 # iterencode level v @ tail) =
             Inr (k, 58 # 32 # iterencode level v @ tail)" for tail
    by (rule scanstring_escaped)
  have ws: "skip_ws (32 # iterencode level v @ tail) = iterencode level v @ tail" for tail
    using c by (simp add: skip_ws_def is_ws_def)
  show ?case
  proof (cases "dct = []")
    case True
    have "scan_once m (iterencode level v @ newline_indent l @ 125 # rest) =
          Inr (v, newline_indent l @ 125 # rest)"
      by (rule Cons.prems(1) [of k]) (simp_all add: v m kv)
    then show ?thesis
      by (simp add: n kv True encode_basestring_def key ws skip_ws_newline_indent skip_ws_start
          is_ws_def)
  next
    case False
    let ?tail = "44 # newline_indent level @ iterencode_dict level dct @ newline_indent l @ 125 # rest"
    have s: "scan_once m (iterencode level v @ ?tail) = Inr (v, ?tail)"
      by (rule Cons.prems(1) [of k]) (simp_all add: v m kv)
    obtain t' where d: "iterencode_dict level dct = 34 # t'"
      using iterencode_dict_start [OF False, of level] by blast
    have w: "skip_ws (newline_indent level @ iterencode_dict level dct @ newline_indent l @ 125 # rest) =
             iterencode_dict level dct @ newline_indent l @ 125 # rest"
      unfolding skip_ws_newline_indent using d by (simp add: skip_ws_start is_ws_def)
    have "JSONObject m (iterencode_dict level dct @ newline_indent l @ 125 # rest) = Inr (dct, rest)"
    proof (rule Cons.IH)
      show "scan_once n' (iterencode level' v' @ rest') = Inr (v', rest')"
        if "(k', v') \<in> set dct" "valid_json v'" "calls_of v' \<le> n'" "delimited rest'"
        for k' v' level' n' rest'
        using that by (intro Cons.prems(1) [of k' v']) simp_all
    qed (use False v(2) m(2) in simp_all)
    then show ?thesis
      using False s
      by (simp add: n kv encode_basestring_def key ws w skip_ws_start is_ws_def)
  qed
qed

lemma scan_once_iterencode:
  "valid_json v \<Longrightarrow> calls_of v \<le> n \<Longrightarrow> delimited rest \<Longrightarrow>
   scan_once n (iterencode level v @ rest) = Inr (v, rest)"
proof (induction v arbitrary: level n rest)
  case PyNone
  then obtain m where "n = Suc m" by (cases n) auto
  then show ?case by (simp add: str_def)
next
  case (PyBool b)
  then obtain m where "n = Suc m" by (cases n) auto
  then show ?case by (simp add: str_def)
next
  case (PyInt i)
  then obtain m where n: "n = Suc m" by (cases n) auto
  obtain c t where c: "int_repr i = c # t" "c = 45 \<or> (48 \<le> c \<and> c \<le> 57)"
    using int_repr_start by blast
  have "match_number (c # t @ rest) = Some (PyInt i, rest)"
    using match_number_int_repr [OF PyInt.prems(3), of i] by (simp add: c(1))
  from scan_once_number [OF this c(2)] show ?case by (simp add: n c(1))
next
  case (PyFloat f)
  then obtain m where n: "n = Suc m" by (cases n) auto
  from PyFloat.prems(1) obtain neg ds p where f: "f = Finite neg ds p" "canonical_digits ds p"
    by (cases f) auto
  obtain c t where c: "float_repr neg ds p = c # t" "c = 45 \<or> (48 \<le> c \<and> c \<le> 57)"
    using float_repr_start [OF f(2)] by blast
  have "match_number (c # t @ rest) = Some (PyFloat (Finite neg ds p), rest)"
    using match_number_float_repr [OF f(2) PyFloat.prems(3), of neg] by (simp add: c(1))
  from scan_once_number [OF this c(2)] show ?case by (simp add: n c(1) f(1) floatstr_def)
next
  case (PyStr s)
  then obtain m where n: "n = Suc m" by (cases n) auto
  show ?case by (simp add: n encode_basestring_def scanstring_escaped)
next
  case (PyList lst)
  from PyList.prems(2) obtain m where n: "n = Suc m" and m: "calls_of_list lst \<le> m"
    by (cases n) auto
  show ?case
  proof (cases "lst = []")
    case True
    then show ?thesis by (simp add: n str_def skip_ws_def is_ws_def)
  next
    case False
    obtain c t where c: "iterencode_list (Suc level) lst = c # t" "value_start c"
      using iterencode_list_start [of lst "Suc level"] PyList.prems(1) False by auto
    have nb: "c \<noteq> 93" using c(2) by (auto simp: value_start_def)
    have w: "skip_ws (newline_indent (Suc level) @ iterencode_list (Suc level) lst @
                      newline_indent level @ 93 # rest) =
             iterencode_list (Suc level) lst @ newline_indent level @ 93 # rest"
      unfolding skip_ws_newline_indent using c value_start_not_ws by (simp add: skip_ws_start)
    have a: "JSONArray m (iterencode_list (Suc level) lst @ newline_indent level @ 93 # rest) =
             Inr (lst, rest)"
    proof (rule JSONArray_items)
      show "scan_once n' (iterencode level' v @ rest') = Inr (v, rest')"
        if "v \<in> set lst" "valid_json v" "calls_of v \<le> n'" "delimited rest'"
        for v level' n' rest'
        using that by (rule PyList.IH)
    qed (use False PyList.prems(1) m in simp_all)
    show ?thesis
      using False a
      by (simp add: n w) (simp add: c(1) nb)
  qed
next
  case (PyDict dct)
  from PyDict.prems(2) obtain m where n: "n = Suc m" and m: "calls_of_items dct \<le> m"
    by (cases n) auto
  show ?case
  proof (cases "dct = []")
    case True
    then show ?thesis by (simp add: n str_def skip_ws_def is_ws_def)
  next
    case False
    obtain t where c: "iterencode_dict (Suc level) dct = 34 # t"
      using iterencode_dict_start [OF False] by blast
    have w: "skip_ws (newline_indent (Suc level) @ iterencode_dict (Suc level) dct @
                      newline_indent level @ 125 # rest) =
             iterencode_dict (Suc level) dct @ newline_indent level @ 125 # rest"
      unfolding skip_ws_newline_indent using c by (simp add: skip_ws_start is_ws_def)
    have a: "JSONObject m (iterencode_dict (Suc level) dct @ newline_indent level @ 125 # rest) =
             Inr (dct, rest)"
    proof (rule JSONObject_items)
      show "scan_once n' (iterencode level' v @ rest') = Inr (v, rest')"
        if "(k, v) \<in> set dct" "valid_json v" "calls_of v \<le> n'" "delimited rest'"
        for k v level' n' rest'
      proof (rule PyDict.IH)
        show "(k, v) \<in> set dct" by (rule that(1))
        show "v \<in> Basic_BNFs.snds (k, v)" by simp
      qed (use that in simp_all)
    qed (use False PyDict.prems(1) m in simp_all)
    have d: "dict_of_pairs dct = dct"
      using PyDict.prems(1) by (simp add: dict_of_pairs_distinct)
    show ?thesis
      using False a
      by (simp add: n w) (simp add: c d)
  qed
qed

subsection \<open>The characters of the text\<close>

lemma plain_text_simps [simp]:
  "plain_text []" "plain_text (c # s) \<longleftrightarrow> plain_char c \<and> plain_text s"
  "plain_text (s @ t) \<longleftrightarrow> plain_text s \<and> plain_text t"
  by (simp_all add: plain_text_def)

lemma plain_char_ascii: "c < 128 \<Longrightarrow> c \<noteq> 13 \<Longrightarrow> plain_char c"
  by (simp add: plain_char_def is_surrogate_def)

lemma plain_text_str [simp]:
  "plain_text (str ''null'')" "plain_text (str ''true'')" "plain_text (str ''false'')"
  "plain_text (str ''[]'')" "plain_text (str ''{}'')" "plain_text (str ''NaN'')"
  "plain_text (str ''Infinity'')" "plain_text (str ''-Infinity'')"
  by (simp_all add: str_def plain_char_def is_surrogate_def)

lemma plain_text_newline_indent [simp]: "plain_text (newline_indent l)"
  by (simp add: newline_indent_def plain_text_def plain_char_def is_surrogate_def list_all_iff)

lemma plain_text_digit_chars: "digits ds \<Longrightarrow> plain_text (map digit_char ds)"
  by (induction ds) (simp_all add: plain_char_def is_surrogate_def digit_char_def)

lemma plain_text_replicate_zero [simp]: "plain_text (replicate z 48)"
  by (simp add: plain_text_def plain_char_def is_surrogate_def list_all_iff)

lemma plain_text_int_repr [simp]: "plain_text (int_repr i)"
  by (simp add: int_repr_def plain_text_digit_chars plain_char_ascii)

lemma plain_text_take_drop:
  "plain_text s \<Longrightarrow> plain_text (take k s)" "plain_text s \<Longrightarrow> plain_text (drop k s)"
  by (auto simp: plain_text_def list_all_iff dest: in_set_takeD in_set_dropD)

lemma plain_text_float_repr:
  assumes "digits ds"
  shows "plain_text (float_repr neg ds p)"
proof -
  have d: "plain_text (map digit_char ds)" using assms by (rule plain_text_digit_chars)
  have m: "plain_text (case map digit_char ds of [] \<Rightarrow> [] | d # r \<Rightarrow> if r = [] then [d] else d # 46 # r)"
    using d by (cases "map digit_char ds") (simp_all add: plain_char_ascii)
  have e: "plain_text (map digit_char (digits_of_nat n))" for n
    by (simp add: plain_text_digit_chars)
  show ?thesis
    unfolding float_repr_def Let_def
    by (simp add: d m e plain_char_ascii plain_text_take_drop del: map_map)
qed

lemma plain_text_escape_char:
  assumes "is_char c" "\<not> is_surrogate c"
  shows "plain_text (escape_char c)"
proof -
  have "hex_digit d < 128 \<and> hex_digit d \<noteq> 13" if "d < 16" for d
    using that by (simp add: hex_digit_def)
  then have h: "plain_char (hex_digit (c div 16))" "plain_char (hex_digit (c mod 16))" if "c < 32"
    using that by (simp_all add: plain_char_ascii)
  show ?thesis
    using assms h by (auto simp: escape_char_def plain_char_def is_char_def is_surrogate_def)
qed

lemma plain_text_basestring:
  assumes "list_all is_char s" "list_all (\<lambda>c. \<not> is_surrogate c) s"
  shows "plain_text (encode_basestring s)"
proof -
  have "plain_text (concat (map escape_char s))"
    using assms by (induction s) (simp_all add: plain_text_escape_char)
  then show ?thesis by (simp add: encode_basestring_def plain_char_ascii)
qed

lemma plain_text_iterencode:
  "valid_json v \<Longrightarrow> no_surrogates v \<Longrightarrow> plain_text (iterencode level v)"
  "valid_json_list vs \<Longrightarrow> no_surrogates_list vs \<Longrightarrow> plain_text (iterencode_list level vs)"
  "valid_json_items kvs \<Longrightarrow> no_surrogates_items kvs \<Longrightarrow> plain_text (iterencode_dict level kvs)"
proof (induction level v and level vs and level kvs rule: iterencode_iterencode_list_iterencode_dict.induct)
  case (4 level f)
  then obtain neg ds p where "f = Finite neg ds p" "digits ds"
    by (cases f) (auto simp: canonical_digits_def digits_def)
  then show ?case by (simp add: floatstr_def plain_text_float_repr)
qed (auto simp: plain_text_basestring plain_char_ascii)

lemma length_int_repr: "1 \<le> length (int_repr i)"
  using int_repr_start [of i] by auto

lemma length_floatstr: "1 \<le> length (floatstr f)"
proof (cases f)
  case (Finite neg ds p)
  show ?thesis
    unfolding Finite floatstr_def float_repr_def Let_def by (simp split: list.splits)
qed (simp_all add: floatstr_def str_def)

lemma length_iterencode:
  "calls_of v \<le> length (iterencode level v)"
  "calls_of_list vs \<le> length (iterencode_list level vs) + (if vs = [] then 0 else 1)"
  "calls_of_items kvs \<le> length (iterencode_dict level kvs) + (if kvs = [] then 0 else 1)"
proof (induction level v and level vs and level kvs rule: iterencode_iterencode_list_iterencode_dict.induct)
  case (3 level i)
  show ?case using length_int_repr [of i] by simp
next
  case (4 level f)
  show ?case using length_floatstr [of f] by simp
qed (auto simp: str_def encode_basestring_def newline_indent_def split: if_splits)

lemma utf8_encode_plain_text:
  "plain_text s \<Longrightarrow> \<exists>bs. utf8_encode s = Inr bs"
proof (induction s)
  case Nil
  then show ?case by simp
next
  case (Cons c s)
  then obtain bs where "utf8_encode s = Inr bs" by auto
  moreover from Cons.prems have "utf8_encode_char c \<noteq> None"
    by (auto simp: plain_char_def utf8_encode_char_def)
  ultimately show ?case by auto
qed

lemma universal_newlines_plain_text: "plain_text s \<Longrightarrow> universal_newlines s = s"
  by (induction s rule: universal_newlines.induct) (auto simp: plain_char_def)

lemma json_loads_json_dumps:
  assumes "valid_json v"
  shows "json_loads (json_dumps v) = Inr v"
proof -
  let ?s = "iterencode 0 v"
  obtain c t where c: "?s = c # t" "value_start c"
    using iterencode_start [OF assms] by blast
  have bom: "take 1 ?s \<noteq> [65279]"
    using c by (auto simp: value_start_def)
  have ws: "skip_ws ?s = ?s"
    using c value_start_not_ws by (simp add: skip_ws_start)
  have "calls_of v \<le> Suc (length ?s + length ?s)"
    using length_iterencode(1) [of v 0] by simp
  then have "scan_once (Suc (length ?s + length ?s)) (?s @ []) = Inr (v, [])"
    using assms by (intro scan_once_iterencode) simp_all
  then have s: "scan_once (Suc (length ?s + length ?s)) ?s = Inr (v, [])"
    by (simp only: append_Nil2)
  have e: "skip_ws [] = []" by (simp add: skip_ws_def)
  show ?thesis
    unfolding json_dumps_def json_loads_def ws s using bom by (simp add: e)
qed

subsection \<open>The store\<close>

lemma str_encode_json_dumps:
  assumes "valid_json v" "no_surrogates v"
  shows "\<exists>bs. str_encode (json_dumps v) = Inr bs"
proof -
  have "plain_text (json_dumps v)"
    using assms by (simp add: json_dumps_def plain_text_iterencode)
  from utf8_encode_plain_text [OF this] show ?thesis by (auto simp: str_encode_def)
qed

lemma store_round_trip:
  assumes "valid_json v" "no_surrogates v"
    and "\<not> io_error w (tmp_path f)" "\<not> io_error w (result_path f)"
  shows "\<exists>w'. write_result_file f v w = (Inr (), w') \<and>
              get_last_result f w' = JSONResponse 200 v"
proof -
  obtain bs where bs: "str_encode (json_dumps v) = Inr bs"
    using str_encode_json_dumps [OF assms(1,2)] by blast
  let ?w = "w\<lparr>oplog := oplog w @ [Write_text (tmp_path f), Replace_file (tmp_path f) (result_path f)],
               files := (files w)(tmp_path f := None, result_path f := Some bs)\<rparr>"
  have "write_result_file f v w = (Inr (), ?w)"
    using assms(3,4) bs by (rule write_result_file_ok)
  moreover have "get_last_result f ?w = JSONResponse 200 v"
  proof (rule get_last_result_stored [where t = "json_dumps v" and bs = bs])
    show "universal_newlines (json_dumps v) = json_dumps v"
      using assms(1,2) by (simp add: json_dumps_def plain_text_iterencode
          universal_newlines_plain_text)
    show "json_loads (json_dumps v) = Inr v" using assms(1) by (rule json_loads_json_dumps)
  qed (simp_all add: assms bs)
  ultimately show ?thesis by blast
qed

text \<open>
  C4, as the code has it. For every value that is valid JSON and whose strings, keys
  included, hold no surrogate code point, and in a world where the two paths can be
  written, \<^verbatim>\<open>_write_result_file\<close> succeeds and \<^verbatim>\<open>get_last_result\<close> afterwards answers
  200 with the same value. A float is compared as the decimal number that its shortest
  \<^verbatim>\<open>repr\<close> denotes.
\<close>

theorem write_then_read_round_trip:
  assumes "valid_json v" "no_surrogates v"
    and "\<not> io_error w (tmp_path f)" "\<not> io_error w (result_path f)"
  shows "\<exists>w'. write_result_file f v w = (Inr (), w') \<and>
              get_last_result f w' = JSONResponse 200 v"
  using assms by (rule store_round_trip)

theorem write_then_read_round_trip_witness:
  "valid_json example_payload \<and> no_surrogates example_payload
   \<and> fst (write_result_file server_py example_payload world_with_snapshot) = Inr ()
   \<and> get_last_result server_py
         (snd (write_result_file server_py example_payload world_with_snapshot)) =
       JSONResponse 200 example_payload"
proof -
  have v: "valid_json example_payload"
    by (simp add: example_payload_def canonical_digits_def is_char_def str_def)
  have s: "no_surrogates example_payload"
    by (simp add: example_payload_def is_surrogate_def str_def)
  have io: "\<not> io_error world_with_snapshot (tmp_path server_py)"
    "\<not> io_error world_with_snapshot (result_path server_py)"
    by (simp_all add: world_with_snapshot_def)
  from write_then_read_round_trip [OF v s io] v s show ?thesis by auto
qed

text \<open>
  The claim as the specification words it fails on a string with a lone surrogate, the
  value of the JSON text \<^verbatim>\<open>"\ud800"\<close>: \<^verbatim>\<open>ensure_ascii=False\<close> leaves the surrogate in
  the text, \<^verbatim>\<open>write_text\<close> cannot encode it as UTF-8, and the snapshot is not written.
\<close>

lemma lone_surrogate_parse:
  \<open>json_loads (str ''"'' @ [92] @ str ''ud800"'') = Inr (PyStr [55296])\<close>
  by (simp add: json_eval)

theorem write_then_read_counterexample:
  \<open>json_loads (str ''"'' @ [92] @ str ''ud800"'') = Inr (PyStr [55296])
   \<and> valid_json (PyStr [55296])
   \<and> fst (write_result_file server_py (PyStr [55296]) fresh_world) = Inl UnicodeEncodeError
   \<and> status_code (get_last_result server_py
         (snd (write_result_file server_py (PyStr [55296]) fresh_world))) = 404\<close>
proof -
  have d: "json_dumps (PyStr [55296]) = [34, 55296, 34]"
    by (simp add: json_dumps_def encode_basestring_def escape_char_def)
  have e: "str_encode [34, 55296, 34] = Inl UnicodeEncodeError"
    by (simp add: codec_eval)
  have n: "result_path server_py \<noteq> tmp_path server_py"
    using tmp_path_neq_result_path [of server_py] by simp
  have v: "valid_json (PyStr [55296])" by (simp add: is_char_def)
  have w: "fst (write_result_file server_py (PyStr [55296]) fresh_world) = Inl UnicodeEncodeError"
    by (simp add: write_result_file_def write_sync_def write_text_def d e fresh_world_def)
  have r: "status_code (get_last_result server_py
         (snd (write_result_file server_py (PyStr [55296]) fresh_world))) = 404"
    using n
    by (simp add: write_result_file_def write_sync_def write_text_def d e fresh_world_def
        get_last_result_def path_exists_def JSONResponse_def)
  from lone_surrogate_parse v w r show ?thesis by (intro conjI)
qed

section \<open>The bound on the calls is never reached\<close>

text \<open>
  Every successful call of the scanner consumes at least one character, so the bound
  that \<open>json_loads\<close> passes suffices for every text: \<open>RecursionError\<close> is never its result.
\<close>

lemma length_skip_ws: "length (skip_ws s) \<le> length s"
  by (simp add: skip_ws_def length_dropWhile_le)

lemma scanstring_consumes:
  "scanstring s = Inr (t, r) \<Longrightarrow> length r < length s"
proof (induction s arbitrary: t r rule: scanstring.induct)
  case 1
  then show ?case by simp
next
  case (2 c cs)
  show ?case
  proof (cases "c = 34")
    case True
    with 2 show ?thesis by simp
  next
    case n34: False
    show ?thesis
    proof (cases "c = 92")
      case True
      with 2(3) n34 obtain e r0 u k t' where cs: "cs = e # r0"
        and esc: "scan_escape e r0 = Inr (u, k)"
        and rec: "scanstring (drop k r0) = Inr (t', r)"
        by (auto split: list.splits sum.splits)
      from 2(1) [OF n34 True cs _ _ rec] esc have "length r < length (drop k r0)" by simp
      then show ?thesis using cs by simp
    next
      case False
      with 2(3) n34 obtain t' where "\<not> c < 32" and rec: "scanstring cs = Inr (t', r)"
        by (auto split: if_splits sum.splits)
      from 2(2) [OF n34 False this] show ?thesis by simp
    qed
  qed
qed

lemma match_integer_consumes: "match_integer s = Some (ip, r) \<Longrightarrow> length r < length s"
  by (auto simp: match_integer_def length_dropWhile_le le_imp_less_Suc
      split: list.splits if_splits)

lemma match_frac_consumes: "match_frac s = Some (fp, r) \<Longrightarrow> length r \<le> length s"
  by (auto simp: match_frac_def split: list.splits if_splits
      intro: le_trans [OF length_dropWhile_le])

lemma match_digits_consumes: "match_digits s = Some (n, r) \<Longrightarrow> length r \<le> length s"
  by (auto simp: match_digits_def length_dropWhile_le le_SucI split: list.splits if_splits)

lemma match_exp_consumes: "match_exp s = Some (e, r) \<Longrightarrow> length r \<le> length s"
  by (auto simp: match_exp_def split: list.splits if_splits
      dest!: match_digits_consumes)

lemma match_number_consumes:
  assumes "match_number s = Some (v, r)"
  shows "length r < length s"
proof -
  let ?s1 = "if (case s of [] \<Rightarrow> False | c # _ \<Rightarrow> c = 45) then tl s else s"
  from assms obtain ip s2 where i: "match_integer ?s1 = Some (ip, s2)"
    by (auto simp: match_number_def Let_def split: option.splits)
  have l1: "length ?s1 \<le> length s" by simp
  have l2: "length s2 < length ?s1" using i by (rule match_integer_consumes)
  let ?s3 = "case match_frac s2 of None \<Rightarrow> s2 | Some (_, t) \<Rightarrow> t"
  have l3: "length ?s3 \<le> length s2"
    by (auto split: option.splits dest: match_frac_consumes)
  let ?s4 = "case match_exp ?s3 of None \<Rightarrow> ?s3 | Some (_, t) \<Rightarrow> t"
  have l4: "length ?s4 \<le> length ?s3"
    by (auto split: option.splits dest: match_exp_consumes)
  have "r = ?s4"
    using assms i by (auto simp: match_number_def Let_def split: if_splits)
  then have "length r \<le> length ?s3" using l4 by simp
  also note l3
  also note l2
  also note l1
  finally show ?thesis .
qed

lemma skip_ws_Cons_length: "skip_ws s = c # r \<Longrightarrow> length r < length s"
  using length_skip_ws [of s] by simp

lemma literal_consumes: "take k s = str lit \<Longrightarrow> lit \<noteq> [] \<Longrightarrow> 0 < k \<Longrightarrow> length (drop k s) < length s"
  by (cases s) (auto simp: str_def)

lemma scan_consumes:
  "(\<forall>s v r. scan_once n s = Inr (v, r) \<longrightarrow> length r < length s) \<and>
   (\<forall>s vs r. JSONArray n s = Inr (vs, r) \<longrightarrow> length r < length s) \<and>
   (\<forall>s ps r. JSONObject n s = Inr (ps, r) \<longrightarrow> length r < length s)"
proof (induction n)
  case 0
  show ?case by simp
next
  case (Suc n)
  have scan: "length r < length s" if "scan_once n s = Inr (v, r)" for s v r
    using Suc that by blast
  have arr: "length r < length s" if "JSONArray n s = Inr (vs, r)" for s vs r
    using Suc that by blast
  have obj: "length r < length s" if "JSONObject n s = Inr (ps, r)" for s ps r
    using Suc that by blast
  have 1: "length r < length s" if a: "scan_once (Suc n) s = Inr (v, r)" for s v r
  proof (cases s)
    case Nil
    with a show ?thesis by simp
  next
    case (Cons c r0)
    consider (is_str) "c = 34" | (is_obj) "c = 123" | (is_arr) "c = 91"
      | (other) "c \<noteq> 34" "c \<noteq> 123" "c \<noteq> 91"
      by blast
    then show ?thesis
    proof cases
      case is_str
      with a Cons obtain t where "scanstring r0 = Inr (t, r)"
        by (auto split: sum.splits)
      from scanstring_consumes [OF this] show ?thesis by (simp add: Cons)
    next
      case is_obj
      with a Cons obtain d r' where w: "skip_ws r0 = d # r'"
        by (auto split: list.splits)
      from skip_ws_Cons_length [OF w] have l: "length r' < length r0" .
      show ?thesis
      proof (cases "d = 125")
        case True
        with a Cons is_obj w l show ?thesis by simp
      next
        case False
        with a Cons is_obj w obtain ps where "JSONObject n (d # r') = Inr (ps, r)"
          by (auto split: sum.splits)
        from obj [OF this] l show ?thesis by (simp add: Cons)
      qed
    next
      case is_arr
      with a Cons obtain d r' where w: "skip_ws r0 = d # r'"
        by (auto split: list.splits)
      from skip_ws_Cons_length [OF w] have l: "length r' < length r0" .
      show ?thesis
      proof (cases "d = 93")
        case True
        with a Cons is_arr w l show ?thesis by simp
      next
        case False
        with a Cons is_arr w obtain vs where "JSONArray n (d # r') = Inr (vs, r)"
          by (auto split: sum.splits)
        from arr [OF this] l show ?thesis by (simp add: Cons)
      qed
    next
      case other
      show ?thesis
      proof (cases "match_number s")
        case (Some res)
        with a Cons other have "res = (v, r) \<or> r = drop 4 s \<and> take 4 s = str ''null'' \<or>
            r = drop 4 s \<and> take 4 s = str ''true'' \<or> r = drop 5 s \<and> take 5 s = str ''false''"
          by (auto split: if_splits)
        then show ?thesis
          using match_number_consumes [of s v r] Some
          by (auto intro: literal_consumes)
      next
        case None
        with a Cons other have "r = drop 4 s \<and> take 4 s = str ''null'' \<or>
            r = drop 4 s \<and> take 4 s = str ''true'' \<or> r = drop 5 s \<and> take 5 s = str ''false'' \<or>
            r = drop 3 s \<and> take 3 s = str ''NaN'' \<or> r = drop 8 s \<and> take 8 s = str ''Infinity'' \<or>
            r = drop 9 s \<and> take 9 s = str ''-Infinity''"
          by (auto split: if_splits)
        then show ?thesis by (auto intro: literal_consumes)
      qed
    qed
  qed
  have 2: "length r < length s" if a: "JSONArray (Suc n) s = Inr (vs, r)" for s vs r
  proof -
    from a obtain v r1 where s1: "scan_once n s = Inr (v, r1)"
      by (auto split: sum.splits)
    from a s1 obtain c r2 where w: "skip_ws r1 = c # r2"
      by (auto split: list.splits)
    have l: "length r2 < length s"
      using scan [OF s1] skip_ws_Cons_length [OF w] by simp
    show ?thesis
    proof (cases "c = 93")
      case True
      with a s1 w l show ?thesis by simp
    next
      case False
      with a s1 w obtain vs' where "JSONArray n (skip_ws r2) = Inr (vs', r)"
        by (auto split: sum.splits if_splits)
      from arr [OF this] l length_skip_ws [of r2] show ?thesis by simp
    qed
  qed
  have 3: "length r < length s" if a: "JSONObject (Suc n) s = Inr (ps, r)" for s ps r
  proof -
    from a obtain r0 where s: "s = 34 # r0"
      by (cases s) (auto split: if_splits)
    from a s obtain key r1 where k: "scanstring r0 = Inr (key, r1)"
      by (auto split: sum.splits)
    from a s k obtain r2 where w1: "skip_ws r1 = 58 # r2"
      by (auto split: list.splits if_splits)
    from a s k w1 obtain v r3 where s1: "scan_once n (skip_ws r2) = Inr (v, r3)"
      by (auto split: sum.splits)
    from a s k w1 s1 obtain c r4 where w2: "skip_ws r3 = c # r4"
      by (auto split: list.splits)
    have l: "length r4 < length s"
      using scanstring_consumes [OF k] skip_ws_Cons_length [OF w1] length_skip_ws [of r2]
        scan [OF s1] skip_ws_Cons_length [OF w2] by (simp add: s)
    show ?thesis
    proof (cases "c = 125")
      case True
      with a s k w1 s1 w2 l show ?thesis by simp
    next
      case False
      with a s k w1 s1 w2 obtain ps' where "JSONObject n (skip_ws r4) = Inr (ps', r)"
        by (auto split: sum.splits if_splits)
      from obj [OF this] l length_skip_ws [of r4] show ?thesis by simp
    qed
  qed
  from 1 2 3 show ?case by blast
qed

lemma scan_escape_no_recursion_error: "scan_escape e r \<noteq> Inl RecursionError"
  by (auto simp: scan_escape_def split: option.splits if_splits)

lemma scanstring_no_recursion_error: "scanstring s \<noteq> Inl RecursionError"
proof (induction s rule: scanstring.induct)
  case 1
  show ?case by simp
next
  case (2 c cs)
  show ?case
  proof
    assume a: "scanstring (c # cs) = Inl RecursionError"
    show False
    proof (cases "c = 92")
      case True
      with a obtain e r0 u k where cs: "cs = e # r0" and esc: "scan_escape e r0 = Inr (u, k)"
        and rec: "scanstring (drop k r0) = Inl RecursionError"
        using scan_escape_no_recursion_error
        by (auto split: list.splits sum.splits if_splits)
      from 2(1) [OF _ True cs _ _] esc rec True show False by auto
    next
      case False
      with a have n: "c \<noteq> 34" "\<not> c < 32" and rec: "scanstring cs = Inl RecursionError"
        by (auto split: if_splits sum.splits)
      from 2(2) [OF n(1) False n(2)] rec show False by simp
    qed
  qed
qed

lemma scan_no_recursion_error:
  "(\<forall>s. 2 * length s < n \<longrightarrow> scan_once n s \<noteq> Inl RecursionError) \<and>
   (\<forall>s. 2 * length s + 1 < n \<longrightarrow> JSONArray n s \<noteq> Inl RecursionError) \<and>
   (\<forall>s. 2 * length s + 1 < n \<longrightarrow> JSONObject n s \<noteq> Inl RecursionError)"
proof (induction n)
  case 0
  show ?case by simp
next
  case (Suc n)
  have scan: "scan_once n s \<noteq> Inl RecursionError" if "2 * length s < n" for s
    using Suc that by blast
  have arr: "JSONArray n s \<noteq> Inl RecursionError" if "2 * length s + 1 < n" for s
    using Suc that by blast
  have obj: "JSONObject n s \<noteq> Inl RecursionError" if "2 * length s + 1 < n" for s
    using Suc that by blast
  note consumes = scan_consumes [of n, THEN conjunct1, rule_format]
  have 1: "scan_once (Suc n) s \<noteq> Inl RecursionError" if b: "2 * length s < Suc n" for s
  proof
    assume a: "scan_once (Suc n) s = Inl RecursionError"
    then obtain c r0 where s: "s = c # r0" by (cases s) auto
    from a s scanstring_no_recursion_error [of r0]
    consider (is_obj) d r' where "c = 123" "skip_ws r0 = d # r'"
        "JSONObject n (d # r') = Inl RecursionError"
      | (is_arr) d r' where "c = 91" "skip_ws r0 = d # r'"
        "JSONArray n (d # r') = Inl RecursionError"
      by (auto split: if_splits list.splits sum.splits option.splits)
    then show False
    proof cases
      case is_obj
      have "length (d # r') \<le> length r0" using length_skip_ws [of r0] is_obj(2) by simp
      then have "2 * length (d # r') + 1 < n" using b s by simp
      from obj [OF this] is_obj(3) show False by simp
    next
      case is_arr
      have "length (d # r') \<le> length r0" using length_skip_ws [of r0] is_arr(2) by simp
      then have "2 * length (d # r') + 1 < n" using b s by simp
      from arr [OF this] is_arr(3) show False by simp
    qed
  qed
  have 2: "JSONArray (Suc n) s \<noteq> Inl RecursionError" if b: "2 * length s + 1 < Suc n" for s
  proof
    assume a: "JSONArray (Suc n) s = Inl RecursionError"
    have "2 * length s < n" using b by simp
    from scan [OF this] a obtain v r1 c r2 where s1: "scan_once n s = Inr (v, r1)"
      and w: "skip_ws r1 = c # r2" and rec: "JSONArray n (skip_ws r2) = Inl RecursionError"
      by (auto split: sum.splits list.splits if_splits)
    have "length (skip_ws r2) < length s"
      using consumes [OF s1] skip_ws_Cons_length [OF w] length_skip_ws [of r2] by simp
    then have "2 * length (skip_ws r2) + 1 < n" using b by simp
    from arr [OF this] rec show False by simp
  qed
  have 3: "JSONObject (Suc n) s \<noteq> Inl RecursionError" if b: "2 * length s + 1 < Suc n" for s
  proof
    assume a: "JSONObject (Suc n) s = Inl RecursionError"
    then obtain r0 where s: "s = 34 # r0" by (cases s) (auto split: if_splits)
    from a s scanstring_no_recursion_error [of r0] obtain key r1 where
      k: "scanstring r0 = Inr (key, r1)"
      by (auto split: sum.splits)
    from a s k obtain r2 where w1: "skip_ws r1 = 58 # r2"
      by (auto split: list.splits if_splits)
    have l2: "length (skip_ws r2) < length s"
      using scanstring_consumes [OF k] skip_ws_Cons_length [OF w1] length_skip_ws [of r2]
      by (simp add: s)
    then have "2 * length (skip_ws r2) < n" using b by simp
    from scan [OF this] a s k w1 obtain v r3 c r4 where
      s1: "scan_once n (skip_ws r2) = Inr (v, r3)" and w2: "skip_ws r3 = c # r4"
      and rec: "JSONObject n (skip_ws r4) = Inl RecursionError"
      by (auto split: sum.splits list.splits if_splits)
    have "length (skip_ws r4) < length s"
      using l2 consumes [OF s1] skip_ws_Cons_length [OF w2] length_skip_ws [of r4] by simp
    then have "2 * length (skip_ws r4) + 1 < n" using b by simp
    from obj [OF this] rec show False by simp
  qed
  from 1 2 3 show ?case by blast
qed

lemma json_loads_no_recursion_error: "json_loads s \<noteq> Inl RecursionError"
proof -
  have "2 * length (skip_ws s) < Suc (length s + length s)"
    using length_skip_ws [of s] by simp
  then have "scan_once (Suc (length s + length s)) (skip_ws s) \<noteq> Inl RecursionError"
    using scan_no_recursion_error [of "Suc (length s + length s)"] by blast
  then show ?thesis by (auto simp: json_loads_def split: sum.splits)
qed

section \<open>Top-level values that are no dict\<close>

text \<open>
  The webhook accepts a JSON document whose top-level value is not an object: the body
  \<^verbatim>\<open>false\<close> is answered with \<^verbatim>\<open>ok\<close> and stored. Only \<^verbatim>\<open>null\<close> is taken for a failure.
\<close>

lemma false_decoded: \<open>bytes_decode Ignore (bytes ''false'') = Inr (str ''false'')\<close>
  by (simp add: codec_eval bytes_def str_def)

lemma false_parse: \<open>json_loads (str ''false'') = Inr (PyBool False)\<close>
  by (simp add: json_eval)

lemma webhook_accepts_json_false:
  \<open>fst (webhook_from_mt5 server_py (bytes ''false'') fresh_world) =
     Inr (JSONResponse 200
       (PyDict [(str ''status'', PyStr (str ''ok'')), (str ''received'', PyBool False)]))
   \<and> get_last_result server_py (snd (webhook_from_mt5 server_py (bytes ''false'') fresh_world)) =
       JSONResponse 200 (PyBool False)\<close>
proof -
  have t: \<open>try_parse_mt5_json (str ''false'') = (PyBool False, None, None)\<close>
    by (simp add: try_parse_mt5_json_def false_parse)
  have io: "\<not> io_error fresh_world (tmp_path server_py)"
    "\<not> io_error fresh_world (result_path server_py)"
    by (simp_all add: fresh_world_def)
  obtain w' where w: "write_result_file server_py (PyBool False) fresh_world = (Inr (), w')"
    and g: "get_last_result server_py w' = JSONResponse 200 (PyBool False)"
    using store_round_trip [of "PyBool False" fresh_world server_py] io by auto
  show ?thesis
    by (simp add: webhook_from_mt5_def false_decoded t w g)
qed

end
